theory Spec2Isabelle
  imports Complex_Main "HOL-Library.Word" "HOL-Library.Sublist"
begin

section \<open>sidecar.c: constants and basic types\<close>

text \<open>
  The constants of \<^verbatim>\<open>sidecar.c\<close> (lines 39 to 43). \<^verbatim>\<open>REFRESH\<close> only feeds
  \<^verbatim>\<open>nanosleep\<close> and is not needed here.
\<close>

definition HISTORY_HEIGHT :: int where "HISTORY_HEIGHT = 10"
definition HISTORY_DIVISOR :: int where "HISTORY_DIVISOR = 4"
definition MAXW :: nat where "MAXW = 512"
definition MAX_DEBUG_LINES :: nat where "MAX_DEBUG_LINES = 12"

text \<open>
  How the process can stop: \<^verbatim>\<open>exit(n)\<close>, or a call whose behaviour C leaves
  undefined and that faults in practice (\<^verbatim>\<open>fclose(NULL)\<close>).
\<close>

datatype halt = Exit int | Fault

text \<open>
  A C \<^verbatim>\<open>double\<close>. Finite values are idealised as exact reals (rounding is not
  modelled); the IEEE-754 special values are kept, because a division by zero in C
  does not trap but yields an infinity or a NaN, whereas \<open>x / 0 = 0\<close> in HOL.
\<close>

datatype double = Fin real | PInf | NInf | NaN

text \<open>\<^verbatim>\<open>(double)a / b\<close> for two finite operands (all divisions of the program
  have operands converted from unsigned integers).\<close>

definition ddiv :: "real \<Rightarrow> real \<Rightarrow> double" where
  "ddiv a b = (if b \<noteq> 0 then Fin (a / b)
               else if a = 0 then NaN else if 0 < a then PInf else NInf)"

text \<open>\<^verbatim>\<open>x * c\<close> for a finite constant \<open>c\<close>.\<close>

fun dmul :: "double \<Rightarrow> real \<Rightarrow> double" where
  "dmul (Fin a) c = Fin (a * c)"
| "dmul PInf c = (if 0 < c then PInf else if c < 0 then NInf else NaN)"
| "dmul NInf c = (if 0 < c then NInf else if c < 0 then PInf else NaN)"
| "dmul NaN c = NaN"

text \<open>\<^verbatim>\<open>unsigned long long\<close>, and \<^verbatim>\<open>unsigned long\<close> on the LP64 hosts that have
  \<^verbatim>\<open>/proc\<close>: 64 bits, arithmetic modulo \<open>2 ^ 64\<close>.\<close>

type_synonym u64 = "64 word"

definition u64_to_double :: "u64 \<Rightarrow> real" where
  "u64_to_double w = real (unat w)"

text \<open>The bytes that end or cut a C string.\<close>

definition NUL :: char where "NUL = CHR 0x00"
definition LF :: char where "LF = CHR 0x0A"
definition CR :: char where "CR = CHR 0x0D"

text \<open>
  \<^verbatim>\<open>buf[strcspn(buf, reject)] = 0\<close>: the C string left in the buffer is the part
  before the first byte of \<open>reject\<close>, or before the first NUL.
\<close>

definition cut_at :: "string \<Rightarrow> string \<Rightarrow> string" where
  "cut_at reject buf = takeWhile (\<lambda>c. c \<noteq> NUL \<and> c \<notin> set reject) buf"

text \<open>
  \<^verbatim>\<open>memmove(&a[0], &a[1], n * sizeof a[0])\<close>: the cells \<open>0..n-1\<close> receive the old
  cells \<open>1..n\<close>, the cells from \<open>n\<close> on are unchanged. The callers pass
  \<open>n = length a - 1\<close>.
\<close>

definition memmove_down :: "nat \<Rightarrow> 'a list \<Rightarrow> 'a list" where
  "memmove_down n a = take n (drop 1 a) @ drop n a"

section \<open>The debug log buffer\<close>

text \<open>
  \<^verbatim>\<open>static char *debug_lines[MAX_DEBUG_LINES]; static int debug_line_count\<close>.
  A cell that holds no line yet (a NULL pointer) is the empty string; \<^verbatim>\<open>strdup\<close>
  is taken to succeed, and \<^verbatim>\<open>free\<close> has no effect on the contents.
\<close>

record debug_log =
  debug_lines :: "string list"
  debug_line_count :: nat

definition debug_log_init :: debug_log where
  "debug_log_init = \<lparr>debug_lines = replicate MAX_DEBUG_LINES [], debug_line_count = 0\<rparr>"

definition debug_log_append :: "string \<Rightarrow> debug_log \<Rightarrow> debug_log" where
  "debug_log_append line lg =
     (let lg1 = (if debug_line_count lg \<ge> MAX_DEBUG_LINES
                 then lg\<lparr>debug_lines := memmove_down (MAX_DEBUG_LINES - 1) (debug_lines lg),
                        debug_line_count := debug_line_count lg - 1\<rparr>
                 else lg)
      in lg1\<lparr>debug_lines := (debug_lines lg1)[debug_line_count lg1 := line],
             debug_line_count := debug_line_count lg1 + 1\<rparr>)"

text \<open>The lines the buffer holds: the first \<open>debug_line_count\<close> cells, oldest first
  (what the renderer walks with \<^verbatim>\<open>for (i = start; i < debug_line_count; i++)\<close>).\<close>

definition log_contents :: "debug_log \<Rightarrow> string list" where
  "log_contents lg = take (debug_line_count lg) (debug_lines lg)"

definition log_ok :: "debug_log \<Rightarrow> bool" where
  "log_ok lg = (length (debug_lines lg) = MAX_DEBUG_LINES \<and> debug_line_count lg \<le> MAX_DEBUG_LINES)"

text \<open>The last \<open>n\<close> elements of a list.\<close>

definition lastn :: "nat \<Rightarrow> 'a list \<Rightarrow> 'a list" where
  "lastn n xs = drop (length xs - n) xs"

section \<open>The tailed file\<close>

text \<open>
  The stdio stream \<^verbatim>\<open>dbg_fp\<close> together with the file behind it: the bytes of the
  file, the read position and the end-of-file indicator. The stream is unbuffered
  (\<^verbatim>\<open>setvbuf(dbg_fp, NULL, _IONBF, 0)\<close>), so every read sees the bytes the file holds
  at that moment. Read errors other than end-of-file are not modelled.
\<close>

record stream =
  f_content :: string
  f_pos :: nat
  f_eof :: bool

text \<open>\<^verbatim>\<open>fopen(path, "r")\<close> on a file that holds \<open>c\<close>.\<close>

definition fopen_r :: "string \<Rightarrow> stream" where
  "fopen_r c = \<lparr>f_content = c, f_pos = 0, f_eof = False\<rparr>"

text \<open>
  \<^verbatim>\<open>fgetc\<close> (C11 7.21.7.1): when the end-of-file indicator is set or the stream is at
  the end of the file, the indicator is set and EOF is returned; otherwise the next
  byte is returned and the position advances.
\<close>

definition fgetc :: "stream \<Rightarrow> char option \<times> stream" where
  "fgetc f = (if f_eof f \<or> f_pos f \<ge> length (f_content f)
              then (None, f\<lparr>f_eof := True\<rparr>)
              else (Some (f_content f ! f_pos f), f\<lparr>f_pos := f_pos f + 1\<rparr>))"

text \<open>
  \<^verbatim>\<open>fgets(buf, n, f)\<close> (C11 7.21.7.2): reads at most \<open>n - 1\<close> bytes, stops after a
  newline or at end-of-file, and returns NULL when end-of-file is met before any byte was
  read. \<open>fgets_loop k acc\<close> has room for \<open>k\<close> more bytes after the bytes \<open>acc\<close>.
\<close>

fun fgets_loop :: "nat \<Rightarrow> string \<Rightarrow> stream \<Rightarrow> string \<times> stream" where
  "fgets_loop 0 acc f = (acc, f)"
| "fgets_loop (Suc k) acc f =
     (case fgetc f of
        (None, f') \<Rightarrow> (acc, f')
      | (Some c, f') \<Rightarrow> if c = LF then (acc @ [c], f') else fgets_loop k (acc @ [c]) f')"

definition fgets :: "nat \<Rightarrow> stream \<Rightarrow> string option \<times> stream" where
  "fgets n f = (case fgets_loop (n - 1) [] f of
                  (buf, f') \<Rightarrow> if buf = [] then (None, f') else (Some buf, f'))"

text \<open>\<^verbatim>\<open>clearerr\<close> clears the end-of-file indicator.\<close>

definition clearerr :: "stream \<Rightarrow> stream" where
  "clearerr f = f\<lparr>f_eof := False\<rparr>"

text \<open>
  \<^verbatim>\<open>init_debug_file\<close>: \<open>None\<close> is a file that cannot be opened (the function returns
  \<open>-1\<close> and \<^verbatim>\<open>main\<close> sets \<^verbatim>\<open>dbg_fp = NULL\<close>); otherwise the stream is moved to the end of
  the file (\<^verbatim>\<open>fseek(dbg_fp, 0, SEEK_END)\<close>, which also clears the indicator).
\<close>

definition init_debug_file :: "string option \<Rightarrow> stream option" where
  "init_debug_file file =
     (case file of
        None \<Rightarrow> None
      | Some c \<Rightarrow> Some ((fopen_r c)\<lparr>f_pos := length c, f_eof := False\<rparr>))"

text \<open>Another process appends bytes to the file.\<close>

definition file_append :: "string \<Rightarrow> stream \<Rightarrow> stream" where
  "file_append bytes f = f\<lparr>f_content := f_content f @ bytes\<rparr>"

lemma fgetc_content [simp]: "f_content (snd (fgetc f)) = f_content f"
  by (simp add: fgetc_def)

lemma fgets_loop_content [simp]: "f_content (snd (fgets_loop k acc f)) = f_content f"
proof (induction k arbitrary: acc f)
  case 0
  then show ?case by simp
next
  case (Suc k)
  show ?case
  proof (cases "fgetc f")
    case (Pair r f')
    then have "f_content f' = f_content f"
      using fgetc_content [of f] by simp
    then show ?thesis using Pair Suc.IH by (cases r) simp_all
  qed
qed

lemma fgets_loop_pos:
  "f_pos f \<le> length (f_content f) \<Longrightarrow>
   length (fst (fgets_loop k acc f)) + f_pos f = f_pos (snd (fgets_loop k acc f)) + length acc
   \<and> f_pos (snd (fgets_loop k acc f)) \<le> length (f_content f)"
proof (induction k arbitrary: acc f)
  case 0
  then show ?case by simp
next
  case (Suc k)
  show ?case
  proof (cases "f_eof f \<or> f_pos f \<ge> length (f_content f)")
    case True
    then show ?thesis using Suc.prems by (simp add: fgetc_def)
  next
    case False
    let ?c = "f_content f ! f_pos f"
    let ?f = "f\<lparr>f_pos := f_pos f + 1\<rparr>"
    have step: "fgetc f = (Some ?c, ?f)" using False by (simp add: fgetc_def)
    have le: "f_pos ?f \<le> length (f_content ?f)" using False by simp
    show ?thesis
    proof (cases "?c = LF")
      case True
      then show ?thesis using step False by simp
    next
      case F2: False
      from Suc.IH [OF le, of "acc @ [?c]"] step F2 show ?thesis by simp
    qed
  qed
qed

lemma fgets_loop_beyond:
  "\<not> f_pos f \<le> length (f_content f) \<Longrightarrow> fst (fgets_loop k acc f) = acc"
  by (cases k) (simp_all add: fgetc_def)

text \<open>
  \<^verbatim>\<open>read_debug_file\<close>: the loop \<^verbatim>\<open>while (fgets(line, sizeof(line), dbg_fp))\<close> with
  \<^verbatim>\<open>char line[1024]\<close>, then \<^verbatim>\<open>clearerr\<close>. Every round consumes at least one byte, so
  the loop ends.
\<close>

function read_debug_loop :: "stream \<Rightarrow> debug_log \<Rightarrow> int \<Rightarrow> int \<times> stream \<times> debug_log" where
  "read_debug_loop f lg updated =
     (case fgets 1024 f of
        (None, f') \<Rightarrow> (updated, f', lg)
      | (Some line, f') \<Rightarrow>
          read_debug_loop f' (debug_log_append (cut_at [CR, LF] line) lg) 1)"
  by pat_completeness auto
termination
proof (relation "measure (\<lambda>(f, lg, u). length (f_content f) - f_pos f)")
  show "wf (measure (\<lambda>(f, lg, u). length (f_content f) - f_pos f))" by simp
next
  fix f :: stream and lg :: debug_log and updated :: int and x y line
  assume xy: "(x, y) = fgets 1024 f" and x: "x = Some line"
  have r: "fgets_loop 1023 [] f = (line, y)" and ne: "line \<noteq> []"
    using xy x by (auto simp: fgets_def split: prod.splits if_splits)
  have le: "f_pos f \<le> length (f_content f)"
    using fgets_loop_beyond [of f 1023 "[]"] r ne by (cases "f_pos f \<le> length (f_content f)") auto
  from fgets_loop_pos [OF le, of 1023 "[]"] r
  have "length line + f_pos f = f_pos y" "f_pos y \<le> length (f_content f)" by simp_all
  moreover have "f_content y = f_content f"
    using fgets_loop_content [of 1023 "[]" f] r by simp
  ultimately show "((y, debug_log_append (cut_at [CR, LF] line) lg, 1), (f, lg, updated))
        \<in> measure (\<lambda>(f, lg, u). length (f_content f) - f_pos f)"
    using ne by (cases line) auto
qed

declare read_debug_loop.simps [simp del]

definition read_debug_file :: "stream option \<Rightarrow> debug_log \<Rightarrow> int \<times> stream option \<times> debug_log" where
  "read_debug_file fp lg =
     (case fp of
        None \<Rightarrow> (0, None, lg)
      | Some f \<Rightarrow> (case read_debug_loop f lg 0 of
                    (updated, f', lg') \<Rightarrow> (updated, Some (clearerr f'), lg')))"

section \<open>The CPU sampler\<close>

record cpu_stats =
  user :: u64
  nice :: u64
  system :: u64
  idle :: u64
  iowait :: u64
  irq :: u64
  softirq :: u64
  steal :: u64

text \<open>
  What a read of \<^verbatim>\<open>/proc/stat\<close> gives: \<^verbatim>\<open>fopen\<close> fails, or \<^verbatim>\<open>fscanf\<close> has run and
  the structure holds \<open>c\<close> (the result of \<^verbatim>\<open>fscanf\<close> is not checked; a counter it did
  not convert keeps whatever the structure held).
\<close>

datatype cpu_src = CpuFopenFail | CpuRead cpu_stats

definition get_cpu_stats :: "cpu_src \<Rightarrow> halt + cpu_stats" where
  "get_cpu_stats src = (case src of CpuFopenFail \<Rightarrow> Inl (Exit 1) | CpuRead c \<Rightarrow> Inr c)"

text \<open>
  \<^verbatim>\<open>get_cpu_usage(&prev)\<close>: the result is the returned busy percentage, the new
  \<^verbatim>\<open>*prev\<close> and the new \<^verbatim>\<open>last_io_pct\<close>.
\<close>

definition get_cpu_usage :: "cpu_src \<Rightarrow> cpu_stats \<Rightarrow> halt + (double \<times> cpu_stats \<times> double)" where
  "get_cpu_usage src prev =
     (case get_cpu_stats src of
        Inl h \<Rightarrow> Inl h
      | Inr cur \<Rightarrow>
          (let prev_idle = idle prev + iowait prev;
               idle1 = idle cur + iowait cur;
               prev_non = user prev + nice prev + system prev + irq prev + softirq prev + steal prev;
               non = user cur + nice cur + system cur + irq cur + softirq cur + steal cur;
               prev_total = prev_idle + prev_non;
               total = idle1 + non;
               diff_total = total - prev_total;
               diff_idle = idle1 - prev_idle;
               diff_iowait = iowait cur - iowait prev
           in if diff_total > 0
              then Inr (dmul (ddiv (u64_to_double (diff_total - diff_idle)) (u64_to_double diff_total)) 100,
                        cur,
                        dmul (ddiv (u64_to_double diff_iowait) (u64_to_double diff_total)) 100)
              else Inr (Fin 0, cur, Fin 0)))"

text \<open>The sums the sampler forms from one snapshot, named for the statements below.\<close>

definition idle_of :: "cpu_stats \<Rightarrow> u64" where
  "idle_of s = idle s + iowait s"

definition total_of :: "cpu_stats \<Rightarrow> u64" where
  "total_of s = (idle s + iowait s) + (user s + nice s + system s + irq s + softirq s + steal s)"

text \<open>The increment of one counter between two snapshots, as a natural number.\<close>

definition incr :: "(cpu_stats \<Rightarrow> u64) \<Rightarrow> cpu_stats \<Rightarrow> cpu_stats \<Rightarrow> nat" where
  "incr fld p c = unat (fld c) - unat (fld p)"

definition non_decreasing :: "cpu_stats \<Rightarrow> cpu_stats \<Rightarrow> bool" where
  "non_decreasing p c =
     (user p \<le> user c \<and> nice p \<le> nice c \<and> system p \<le> system c \<and> idle p \<le> idle c \<and>
      iowait p \<le> iowait c \<and> irq p \<le> irq c \<and> softirq p \<le> softirq c \<and> steal p \<le> steal c)"

definition total_incr :: "cpu_stats \<Rightarrow> cpu_stats \<Rightarrow> nat" where
  "total_incr p c =
     incr user p c + incr nice p c + incr system p c + incr idle p c +
     incr iowait p c + incr irq p c + incr softirq p c + incr steal p c"

section \<open>The memory sampler\<close>

text \<open>
  The six variables of \<^verbatim>\<open>get_mem_usage\<close> (\<^verbatim>\<open>unsigned long\<close>), with their initial
  values.
\<close>

record mem_vars =
  mem_total :: u64
  mem_free :: u64
  buffers :: u64
  cached :: u64
  swap_total :: u64
  swap_free :: u64

definition mem_vars_init :: mem_vars where
  "mem_vars_init = \<lparr>mem_total = 1, mem_free = 0, buffers = 0, cached = 0,
                     swap_total = 1, swap_free = 0\<rparr>"

text \<open>
  What a read of \<^verbatim>\<open>/proc/meminfo\<close> gives: \<^verbatim>\<open>fopen\<close> fails, or the rows
  \<open>(key, val, unit)\<close> that the loop \<^verbatim>\<open>while (fscanf(f, "%31s %lu %7s\n", ...) == 3)\<close>
  converts, in order, before it stops.
\<close>

datatype mem_src = MemFopenFail | MemTable "(string \<times> u64 \<times> string) list"

fun mem_row :: "string \<times> u64 \<times> string \<Rightarrow> mem_vars \<Rightarrow> mem_vars" where
  "mem_row (key, val, unit) m =
     (if key = ''MemTotal:'' then m\<lparr>mem_total := val\<rparr>
      else if key = ''MemFree:'' then m\<lparr>mem_free := val\<rparr>
      else if key = ''Buffers:'' then m\<lparr>buffers := val\<rparr>
      else if key = ''Cached:'' then m\<lparr>cached := val\<rparr>
      else if key = ''SwapTotal:'' then m\<lparr>swap_total := val\<rparr>
      else if key = ''SwapFree:'' then m\<lparr>swap_free := val\<rparr>
      else m)"

text \<open>\<^verbatim>\<open>get_mem_usage(&swap_pct)\<close>: the returned percentage and \<^verbatim>\<open>*swap_pct\<close>.\<close>

definition get_mem_usage :: "mem_src \<Rightarrow> halt + (double \<times> double)" where
  "get_mem_usage src =
     (case src of
        MemFopenFail \<Rightarrow> Inl (Exit 1)
      | MemTable rows \<Rightarrow>
          (let m = fold mem_row rows mem_vars_init;
               used = mem_total m - mem_free m - buffers m - cached m;
               swap_pct = (if swap_total m > 0
                           then dmul (ddiv (u64_to_double (swap_total m - swap_free m))
                                           (u64_to_double (swap_total m))) 100
                           else Fin 0)
           in Inr (dmul (ddiv (u64_to_double used) (u64_to_double (mem_total m))) 100, swap_pct)))"

section \<open>The load sampler\<close>

record loadavg_t =
  load_1min :: double
  load_5min :: double
  load_15min :: double
  running_processes :: int
  total_processes :: int
  last_pid :: int

text \<open>
  What \<^verbatim>\<open>sscanf(buffer, "%lf %lf %lf %d/%d %d", ...)\<close> does with a line: it converts
  the fields in order and stops at the first one that does not match, so its outcome is
  the values it converted (at most six), or EOF when the line ends before the first
  field. The line \<^verbatim>\<open>0.08 0.03 0.05 2/278 1234\<close> gives
  \<open>Scan6 0.08 0.03 0.05 2 278 1234\<close>, the line \<^verbatim>\<open>0.50 0.40\<close> gives \<open>Scan2 0.50 0.40\<close>.
\<close>

datatype sscanf_result =
    ScanEOF
  | Scan0
  | Scan1 double
  | Scan2 double double
  | Scan3 double double double
  | Scan4 double double double int
  | Scan5 double double double int int
  | Scan6 double double double int int int

text \<open>The value \<^verbatim>\<open>sscanf\<close> returns (EOF is \<open>-1\<close>).\<close>

fun sscanf_count :: "sscanf_result \<Rightarrow> int" where
  "sscanf_count ScanEOF = -1"
| "sscanf_count Scan0 = 0"
| "sscanf_count (Scan1 a) = 1"
| "sscanf_count (Scan2 a b) = 2"
| "sscanf_count (Scan3 a b c) = 3"
| "sscanf_count (Scan4 a b c r) = 4"
| "sscanf_count (Scan5 a b c r t) = 5"
| "sscanf_count (Scan6 a b c r t p) = 6"

text \<open>
  The arguments of the call are the addresses of the fields of the caller's structure,
  so every converted value is stored there at once.
\<close>

fun sscanf_store :: "sscanf_result \<Rightarrow> loadavg_t \<Rightarrow> loadavg_t" where
  "sscanf_store ScanEOF l = l"
| "sscanf_store Scan0 l = l"
| "sscanf_store (Scan1 a) l = l\<lparr>load_1min := a\<rparr>"
| "sscanf_store (Scan2 a b) l = l\<lparr>load_1min := a, load_5min := b\<rparr>"
| "sscanf_store (Scan3 a b c) l = l\<lparr>load_1min := a, load_5min := b, load_15min := c\<rparr>"
| "sscanf_store (Scan4 a b c r) l =
     l\<lparr>load_1min := a, load_5min := b, load_15min := c, running_processes := r\<rparr>"
| "sscanf_store (Scan5 a b c r t) l =
     l\<lparr>load_1min := a, load_5min := b, load_15min := c, running_processes := r,
       total_processes := t\<rparr>"
| "sscanf_store (Scan6 a b c r t p) l =
     l\<lparr>load_1min := a, load_5min := b, load_15min := c, running_processes := r,
       total_processes := t, last_pid := p\<rparr>"

text \<open>What a read of \<^verbatim>\<open>/proc/loadavg\<close> gives.\<close>

datatype loadavg_src = LoadFopenFail | LoadFgetsFail | LoadLine sscanf_result

text \<open>
  \<^verbatim>\<open>parse_loadavg(&loads)\<close>: the returned code and the structure afterwards (the
  pointer is never NULL in this program).
\<close>

definition parse_loadavg :: "loadavg_src \<Rightarrow> loadavg_t \<Rightarrow> int \<times> loadavg_t" where
  "parse_loadavg src l =
     (case src of
        LoadFopenFail \<Rightarrow> (-1, l)
      | LoadFgetsFail \<Rightarrow> (-1, l)
      | LoadLine r \<Rightarrow>
          (let parsed = sscanf_count r; l1 = sscanf_store r l
           in if parsed \<noteq> 6 then (-1, l1) else (0, l1)))"

section \<open>The power sampler\<close>

record power_status_t =
  battery_percent :: int
  on_ac :: nat

text \<open>
  An attribute file read by \<^verbatim>\<open>read_sys_int\<close>: it cannot be opened, or
  \<^verbatim>\<open>fscanf(file, "%d", &value)\<close> converts nothing, or it converts an integer.
\<close>

datatype int_file = NoFile | NoInt | HasInt int

fun read_sys_int :: "int_file \<Rightarrow> int" where
  "read_sys_int NoFile = -1"
| "read_sys_int NoInt = -1"
| "read_sys_int (HasInt v) = v"

text \<open>
  One entry of \<^verbatim>\<open>/sys/class/power_supply\<close> as \<^verbatim>\<open>readdir\<close> returns it: its name and
  the files \<^verbatim>\<open>type\<close>, \<^verbatim>\<open>capacity\<close>, \<^verbatim>\<open>online\<close> and \<^verbatim>\<open>status\<close> below it. For the two
  text files \<open>None\<close> is a file that cannot be opened, otherwise the bytes of the file.
\<close>

record psy_entry =
  d_name :: string
  type_file :: "string option"
  capacity_file :: int_file
  online_file :: int_file
  status_file :: "string option"

text \<open>
  \<^verbatim>\<open>fgets(type_buf, sizeof(type_buf), file)\<close> with \<^verbatim>\<open>char type_buf[32]\<close> on a freshly
  opened file, then \<^verbatim>\<open>type_buf[strcspn(type_buf, "\n")] = '\0'\<close>.
\<close>

definition read_type_buf :: "string \<Rightarrow> string option" where
  "read_type_buf c = (case fgets 32 (fopen_r c) of
                        (None, f) \<Rightarrow> None
                      | (Some buf, f) \<Rightarrow> Some (cut_at [LF] buf))"

text \<open>\<^verbatim>\<open>strstr(hay, needle) != NULL\<close>.\<close>

fun strstr :: "string \<Rightarrow> string \<Rightarrow> bool" where
  "strstr [] needle = (needle = [])"
| "strstr (h # t) needle = (take (length needle) (h # t) = needle \<or> strstr t needle)"

text \<open>\<^verbatim>\<open>entry->d_name[0] == '.'\<close>.\<close>

definition dot_entry :: "psy_entry \<Rightarrow> bool" where
  "dot_entry e = (case d_name e of [] \<Rightarrow> False | c # cs \<Rightarrow> c = CHR ''.'')"

text \<open>The test of the second branch of the first loop, without \<^verbatim>\<open>!found_ac\<close>.\<close>

definition ac_type :: "string \<Rightarrow> string \<Rightarrow> bool" where
  "ac_type type_buf name =
     (type_buf = ''Mains'' \<or> type_buf = ''ADP1'' \<or> strstr name ''ADP'' \<or> strstr name ''AC'')"

text \<open>
  The first loop over the directory. The state is \<^verbatim>\<open>*power\<close>, \<^verbatim>\<open>found_battery\<close> and
  \<^verbatim>\<open>found_ac\<close>.
\<close>

fun power_pass1 :: "psy_entry list \<Rightarrow> power_status_t \<times> bool \<times> bool \<Rightarrow> power_status_t \<times> bool \<times> bool" where
  "power_pass1 [] st = st"
| "power_pass1 (e # es) (pw, found_battery, found_ac) =
     (if dot_entry e then power_pass1 es (pw, found_battery, found_ac)
      else case type_file e of
        None \<Rightarrow> power_pass1 es (pw, found_battery, found_ac)
      | Some c \<Rightarrow>
         (case read_type_buf c of
            None \<Rightarrow> power_pass1 es (pw, found_battery, found_ac)
          | Some type_buf \<Rightarrow>
              if type_buf = ''Battery'' \<and> \<not> found_battery
              then (let pw1 = pw\<lparr>battery_percent := read_sys_int (capacity_file e)\<rparr>
                    in power_pass1 es
                         (pw1, (if battery_percent pw1 \<ge> 0 then True else found_battery), found_ac))
              else if ac_type type_buf (d_name e) \<and> \<not> found_ac
              then (let online = read_sys_int (online_file e)
                    in if online > 0 then power_pass1 es (pw\<lparr>on_ac := 1\<rparr>, found_battery, True)
                       else power_pass1 es (pw, found_battery, found_ac))
              else power_pass1 es (pw, found_battery, found_ac)))"

text \<open>
  The second loop, which stops at the first entry of type Battery. When the \<^verbatim>\<open>status\<close>
  file of that entry cannot be opened, \<^verbatim>\<open>freopen\<close> returns NULL and the code calls
  \<^verbatim>\<open>fclose(NULL)\<close>, which C leaves undefined.
\<close>

fun power_pass2 :: "psy_entry list \<Rightarrow> power_status_t \<Rightarrow> halt + power_status_t" where
  "power_pass2 [] pw = Inr pw"
| "power_pass2 (e # es) pw =
     (if dot_entry e then power_pass2 es pw
      else case type_file e of
        None \<Rightarrow> power_pass2 es pw
      | Some c \<Rightarrow>
         (case read_type_buf c of
            None \<Rightarrow> power_pass2 es pw
          | Some type_buf \<Rightarrow>
              if type_buf = ''Battery''
              then (case status_file e of
                      None \<Rightarrow> Inl Fault
                    | Some sc \<Rightarrow>
                       (case read_type_buf sc of
                          None \<Rightarrow> Inr pw
                        | Some status \<Rightarrow>
                            if status = ''Charging'' then Inr (pw\<lparr>on_ac := 1\<rparr>) else Inr pw))
              else power_pass2 es pw))"

text \<open>
  \<^verbatim>\<open>parse_power_status(&power)\<close>: the two arguments are what the first and the second
  \<^verbatim>\<open>opendir\<close> of \<^verbatim>\<open>/sys/class/power_supply\<close> enumerate (\<open>None\<close> when \<^verbatim>\<open>opendir\<close>
  fails). The result is the returned code and \<^verbatim>\<open>*power\<close>.
\<close>

definition parse_power_status ::
  "psy_entry list option \<Rightarrow> psy_entry list option \<Rightarrow> halt + (int \<times> power_status_t)" where
  "parse_power_status dir1 dir2 =
     (let pw0 = \<lparr>battery_percent = -1, on_ac = 0\<rparr>
      in case dir1 of
           None \<Rightarrow> Inr (-1, pw0)
         | Some es \<Rightarrow>
            (case power_pass1 es (pw0, False, False) of
               (pw, found_battery, found_ac) \<Rightarrow>
                 if \<not> found_ac \<and> found_battery
                 then (case dir2 of
                         None \<Rightarrow> Inr (0, pw)
                       | Some es2 \<Rightarrow>
                          (case power_pass2 es2 pw of
                             Inl h \<Rightarrow> Inl h
                           | Inr pw2 \<Rightarrow> Inr (0, pw2)))
                 else Inr (0, pw)))"

section \<open>The history arrays\<close>

text \<open>
  \<^verbatim>\<open>memmove(hist, hist+1, (MAXW-1)*sizeof(double)); hist[MAXW-1] = v\<close> on an array of
  \<^verbatim>\<open>MAXW\<close> cells.
\<close>

definition hist_shift_in :: "double \<Rightarrow> double list \<Rightarrow> double list" where
  "hist_shift_in v h = (memmove_down (MAXW - 1) h)[MAXW - 1 := v]"

text \<open>The push of lines 415 to 418 on both arrays.\<close>

definition history_push :: "double \<times> double \<Rightarrow> double list \<times> double list \<Rightarrow> double list \<times> double list" where
  "history_push pt h = (hist_shift_in (fst pt) (fst h), hist_shift_in (snd pt) (snd h))"

text \<open>The columns the renderer draws: \<^verbatim>\<open>for (col = MAXW - graph_width; col < MAXW; col++)\<close>.\<close>

definition visible :: "nat \<Rightarrow> double list \<Rightarrow> double list" where
  "visible gw h = drop (MAXW - gw) h"

section \<open>The summary line\<close>

text \<open>\<^verbatim>\<open>printf("%d", i)\<close>: the decimal digits, and a minus sign for a negative number.\<close>

definition digit_char :: "nat \<Rightarrow> char" where
  "digit_char d = ''0123456789'' ! d"

fun dec_digits :: "nat \<Rightarrow> string" where
  "dec_digits n = (if n < 10 then [digit_char n]
                   else dec_digits (n div 10) @ [digit_char (n mod 10)])"

declare dec_digits.simps [simp del]

definition printf_d :: "int \<Rightarrow> string" where
  "printf_d i = (if i < 0 then CHR ''-'' # dec_digits (nat (- i)) else dec_digits (nat i))"

text \<open>
  The second line of the summary (lines 445 to 449):
  \<^verbatim>\<open>printf(" > [%d/%d] :: (%d%% %s\n", ...)\<close>.
\<close>

definition proc_power_line :: "loadavg_t \<Rightarrow> power_status_t \<Rightarrow> string" where
  "proc_power_line l pw =
     '' > ['' @ printf_d (running_processes l) @ ''/'' @ printf_d (total_processes l) @
     ''] :: ('' @ printf_d (if battery_percent pw = -1 then 0 else battery_percent pw) @
     ''% '' @ (if on_ac pw = 1 then ''on ac)  '' else ''on batt)'') @ [LF]"

section \<open>The poll loop\<close>

text \<open>The global variables of the program and the locals of \<^verbatim>\<open>main\<close> that live across
  iterations.\<close>

record app_state =
  prev :: cpu_stats
  loads :: loadavg_t
  power_st :: power_status_t
  hist_counter :: int
  hist_cpu :: "double list"
  hist_mem :: "double list"
  last_io_pct :: double
  dbg_fp :: "stream option"
  dbg_log :: debug_log
  term_cols :: int
  term_rows :: int
  graph_width :: int
  resize_pending :: bool

text \<open>
  \<^verbatim>\<open>handle_winch\<close>: the argument is what \<^verbatim>\<open>ioctl(STDOUT_FILENO, TIOCGWINSZ, &ws)\<close>
  gives, \<open>None\<close> when it fails, otherwise \<open>(ws_col, ws_row)\<close>.
\<close>

definition handle_winch :: "(nat \<times> nat) option \<Rightarrow> app_state \<Rightarrow> app_state" where
  "handle_winch ws s =
     (let s1 = (case ws of
                  None \<Rightarrow> s
                | Some (col, row) \<Rightarrow>
                    (let gw = int col - 12;
                         gw1 = (if gw > int MAXW then int MAXW else gw);
                         gw2 = (if gw1 < 20 then 20 else gw1)
                     in s\<lparr>term_cols := int col, term_rows := int row, graph_width := gw2\<rparr>))
      in s1\<lparr>resize_pending := True\<rparr>)"

text \<open>
  What the environment supplies to the code of \<^verbatim>\<open>main\<close> before the loop: \<open>argv1\<close> is
  \<open>None\<close> without an argument, \<open>Some None\<close> for a file that cannot be opened and
  \<open>Some (Some c)\<close> for a file holding \<open>c\<close>; \<open>loads_auto\<close> is what the uninitialised
  local \<^verbatim>\<open>loads\<close> happens to hold.
\<close>

record startup_input =
  argv1 :: "string option option"
  sigaction_ok :: bool
  winsize0 :: "(nat \<times> nat) option"
  cpu0 :: cpu_src
  load0 :: loadavg_src
  power0_dir1 :: "psy_entry list option"
  power0_dir2 :: "psy_entry list option"
  loads_auto :: loadavg_t

text \<open>The static initialisers (lines 63 to 82), with the locals of \<^verbatim>\<open>main\<close>.\<close>

definition static_init :: "cpu_stats \<Rightarrow> loadavg_t \<Rightarrow> power_status_t \<Rightarrow> stream option \<Rightarrow> app_state" where
  "static_init c l pw fp =
     \<lparr>prev = c, loads = l, power_st = pw, hist_counter = 0,
      hist_cpu = replicate MAXW (Fin 0), hist_mem = replicate MAXW (Fin 0),
      last_io_pct = Fin 0, dbg_fp = fp, dbg_log = debug_log_init,
      term_cols = 80, term_rows = 24, graph_width = 50, resize_pending = False\<rparr>"

text \<open>
  \<^verbatim>\<open>main\<close> up to the loop (lines 383 to 400): \<^verbatim>\<open>install_winch_handler\<close> exits with
  status 1 when \<^verbatim>\<open>sigaction\<close> fails, \<^verbatim>\<open>get_cpu_stats\<close> when \<^verbatim>\<open>/proc/stat\<close> cannot be
  opened.
\<close>

definition main_startup :: "startup_input \<Rightarrow> halt + app_state" where
  "main_startup i =
     (let fp = (case argv1 i of None \<Rightarrow> None | Some file \<Rightarrow> init_debug_file file)
      in if \<not> sigaction_ok i then Inl (Exit 1)
         else case get_cpu_stats (cpu0 i) of
           Inl h \<Rightarrow> Inl h
         | Inr c \<Rightarrow>
            (let l = snd (parse_loadavg (load0 i) (loads_auto i))
             in case parse_power_status (power0_dir1 i) (power0_dir2 i) of
                  Inl h \<Rightarrow> Inl h
                | Inr (rc, pw) \<Rightarrow> Inr (handle_winch (winsize0 i) (static_init c l pw fp))))"

text \<open>
  What the environment supplies to one iteration: whether \<^verbatim>\<open>SIGWINCH\<close> was delivered
  since the previous one (with the outcome of the handler's \<^verbatim>\<open>ioctl\<close>), the outcome of
  each read, and the bytes another process has appended to the tailed file since the
  previous iteration.
\<close>

record tick_input =
  sigwinch :: "(nat \<times> nat) option option"
  cpu_in :: cpu_src
  mem_in :: mem_src
  load_in :: loadavg_src
  power_dir1 :: "psy_entry list option"
  power_dir2 :: "psy_entry list option"
  dbg_appended :: string

text \<open>
  One iteration of \<^verbatim>\<open>while (1)\<close> (lines 402 to 472). The frame written to the terminal
  is not part of the state; writing it calls neither \<^verbatim>\<open>exit\<close> nor a sampler.
\<close>

definition main_tick :: "tick_input \<Rightarrow> app_state \<Rightarrow> halt + app_state" where
  "main_tick i s0 =
     (let s = (case sigwinch i of None \<Rightarrow> s0 | Some ws \<Rightarrow> handle_winch ws s0)
      in case get_cpu_usage (cpu_in i) (prev s) of
        Inl h \<Rightarrow> Inl h
      | Inr (cpu, prev1, io_pct) \<Rightarrow>
         (case get_mem_usage (mem_in i) of
            Inl h \<Rightarrow> Inl h
          | Inr (mem, swap_pct) \<Rightarrow>
             (let loads1 = snd (parse_loadavg (load_in i) (loads s))
              in case parse_power_status (power_dir1 i) (power_dir2 i) of
                   Inl h \<Rightarrow> Inl h
                 | Inr (rc, pw) \<Rightarrow>
                    (case read_debug_file (map_option (file_append (dbg_appended i)) (dbg_fp s))
                            (dbg_log s) of
                       (new_debug, fp1, lg1) \<Rightarrow>
                         (let h = (if hist_counter s = 0
                                   then history_push (cpu, mem) (hist_cpu s, hist_mem s)
                                   else (hist_cpu s, hist_mem s));
                              hc = (hist_counter s + 1) mod HISTORY_DIVISOR;
                              rp = (if resize_pending s \<or> new_debug \<noteq> 0 then False
                                    else resize_pending s)
                          in Inr (s\<lparr>prev := prev1, loads := loads1, power_st := pw,
                                    hist_counter := hc, hist_cpu := fst h, hist_mem := snd h,
                                    last_io_pct := io_pct, dbg_fp := fp1, dbg_log := lg1,
                                    resize_pending := rp\<rparr>))))))"

text \<open>The loop, for the outcomes of a finite number of iterations.\<close>

fun main_loop :: "tick_input list \<Rightarrow> app_state \<Rightarrow> halt + app_state" where
  "main_loop [] s = Inr s"
| "main_loop (i # is) s = (case main_tick i s of Inl h \<Rightarrow> Inl h | Inr s1 \<Rightarrow> main_loop is s1)"

section \<open>Quantities and inputs used in the statements\<close>

text \<open>
  The percentage of the interval spent idle or waiting for I/O. The program does not
  compute it; it is the complement of the busy percentage.
\<close>

definition idle_pct :: "cpu_stats \<Rightarrow> cpu_stats \<Rightarrow> real" where
  "idle_pct p c = u64_to_double (idle_of c - idle_of p) / u64_to_double (total_of c - total_of p) * 100"

text \<open>Snapshots of \<^verbatim>\<open>/proc/stat\<close>.\<close>

definition cpu_zero :: cpu_stats where
  "cpu_zero = \<lparr>user = 0, nice = 0, system = 0, idle = 0, iowait = 0, irq = 0, softirq = 0,
                steal = 0\<rparr>"

definition cpu_wrap :: cpu_stats where
  "cpu_wrap = \<lparr>user = 18446744073709551615, nice = 0, system = 0, idle = 2, iowait = 0,
                irq = 0, softirq = 0, steal = 0\<rparr>"

definition cpu_a :: cpu_stats where
  "cpu_a = \<lparr>user = 100, nice = 0, system = 50, idle = 1000, iowait = 10, irq = 0, softirq = 0,
             steal = 0\<rparr>"

definition cpu_b :: cpu_stats where
  "cpu_b = \<lparr>user = 130, nice = 0, system = 60, idle = 1050, iowait = 20, irq = 0, softirq = 0,
             steal = 0\<rparr>"

definition cpu_c :: cpu_stats where
  "cpu_c = \<lparr>user = 90, nice = 0, system = 60, idle = 1000, iowait = 10, irq = 0, softirq = 0,
             steal = 0\<rparr>"

text \<open>A \<^verbatim>\<open>/proc/meminfo\<close> that reports no memory and no swap.\<close>

definition mem_zero_total :: "(string \<times> u64 \<times> string) list" where
  "mem_zero_total = [(''MemTotal:'', 0, ''kB''), (''MemFree:'', 0, ''kB''),
                     (''SwapTotal:'', 0, ''kB''), (''SwapFree:'', 0, ''kB'')]"

text \<open>A load snapshot, and the outcome of \<^verbatim>\<open>sscanf\<close> on the line \<^verbatim>\<open>0.50 0.40\<close>.\<close>

definition loads_old :: loadavg_t where
  "loads_old = \<lparr>load_1min = Fin 1, load_5min = Fin 1, load_15min = Fin 1,
                 running_processes = 1, total_processes = 100, last_pid = 4242\<rparr>"

definition scan_short :: sscanf_result where
  "scan_short = Scan2 (Fin (1 / 2)) (Fin (2 / 5))"

text \<open>
  The power-supply directory, described from its contents. The type of a device is the
  first line of its \<^verbatim>\<open>type\<close> file; a dot entry and an entry whose \<^verbatim>\<open>type\<close> cannot be
  read have none.
\<close>

definition entry_type :: "psy_entry \<Rightarrow> string option" where
  "entry_type e =
     (if dot_entry e then None
      else case type_file e of None \<Rightarrow> None | Some c \<Rightarrow> read_type_buf c)"

text \<open>A battery, and a battery whose capacity reads as a non-negative number.\<close>

definition battery_dev :: "psy_entry \<Rightarrow> bool" where
  "battery_dev e = (entry_type e = Some ''Battery'')"

definition battery_usable :: "psy_entry \<Rightarrow> bool" where
  "battery_usable e = (battery_dev e \<and> 0 \<le> read_sys_int (capacity_file e))"

text \<open>
  The AC-type markers in the words of the specification: the exact type \<^verbatim>\<open>Mains\<close> or
  \<^verbatim>\<open>ADP1\<close>, or a device name containing \<^verbatim>\<open>ADP\<close> or \<^verbatim>\<open>AC\<close>.
\<close>

definition ac_marker :: "string \<Rightarrow> string \<Rightarrow> bool" where
  "ac_marker t name =
     (t = ''Mains'' \<or> t = ''ADP1'' \<or> sublist ''ADP'' name \<or> sublist ''AC'' name)"

text \<open>An AC-type device, and one whose \<^verbatim>\<open>online\<close> attribute reads above 0.\<close>

definition ac_dev :: "psy_entry \<Rightarrow> bool" where
  "ac_dev e = (case entry_type e of None \<Rightarrow> False | Some t \<Rightarrow> ac_marker t (d_name e))"

definition ac_online :: "psy_entry \<Rightarrow> bool" where
  "ac_online e = (ac_dev e \<and> 0 < read_sys_int (online_file e))"

text \<open>
  The enumeration holds a usable battery; it holds an AC-type device that is online. A
  device of type Battery is AC-type only through its name, and it is looked at as an AC
  device only when a usable battery stands before it in the enumeration.
\<close>

definition battery_found :: "psy_entry list \<Rightarrow> bool" where
  "battery_found es = list_ex battery_usable es"

definition ac_found :: "psy_entry list \<Rightarrow> bool" where
  "ac_found es =
     list_ex (\<lambda>k. ac_online (es ! k) \<and>
                  (battery_dev (es ! k) \<longrightarrow> list_ex battery_usable (take k es)))
       [0..<length es]"

text \<open>The same, entry by entry; \<open>fb\<close> says that a usable battery came before.\<close>

fun ac_from :: "bool \<Rightarrow> psy_entry list \<Rightarrow> bool" where
  "ac_from fb [] = False"
| "ac_from fb (e # es) =
     ((ac_online e \<and> (battery_dev e \<longrightarrow> fb)) \<or> ac_from (fb \<or> battery_usable e) es)"

text \<open>
  The first battery of an enumeration has a \<^verbatim>\<open>status\<close> whose first line is exactly
  \<^verbatim>\<open>Charging\<close>; the first battery has a \<^verbatim>\<open>status\<close> that cannot be opened.
\<close>

definition proxy_charging :: "psy_entry list option \<Rightarrow> bool" where
  "proxy_charging dir =
     (case dir of
        None \<Rightarrow> False
      | Some es \<Rightarrow>
         (case find battery_dev es of
            None \<Rightarrow> False
          | Some b \<Rightarrow> (case status_file b of
                         None \<Rightarrow> False
                       | Some sc \<Rightarrow> read_type_buf sc = Some ''Charging'')))"

definition proxy_status_missing :: "psy_entry list option \<Rightarrow> bool" where
  "proxy_status_missing dir =
     (case dir of
        None \<Rightarrow> False
      | Some es \<Rightarrow>
         (case find battery_dev es of None \<Rightarrow> False | Some b \<Rightarrow> status_file b = None))"

text \<open>
  The two enumerations of one call lead to \<^verbatim>\<open>fclose(NULL)\<close>: the first holds a usable
  battery and no AC-type device that is online, and the first battery of the second
  has a \<^verbatim>\<open>status\<close> that cannot be opened.
\<close>

definition fclose_null :: "psy_entry list option \<Rightarrow> psy_entry list option \<Rightarrow> bool" where
  "fclose_null dir1 dir2 =
     (case dir1 of
        None \<Rightarrow> False
      | Some es \<Rightarrow> \<not> ac_found es \<and> battery_found es \<and> proxy_status_missing dir2)"

text \<open>An entry that is neither a battery nor an AC-type device.\<close>

definition other_device :: "psy_entry \<Rightarrow> bool" where
  "other_device e = (\<not> battery_dev e \<and> \<not> ac_dev e)"

text \<open>Entries of a power-supply directory: \<^verbatim>\<open>.\<close> and \<^verbatim>\<open>..\<close>, a battery with capacity
  42, a USB port.\<close>

definition dir_entry :: "string \<Rightarrow> psy_entry" where
  "dir_entry name = \<lparr>d_name = name, type_file = None, capacity_file = NoFile,
                      online_file = NoFile, status_file = None\<rparr>"

definition bat0 :: "string \<Rightarrow> psy_entry" where
  "bat0 status = \<lparr>d_name = ''BAT0'', type_file = Some (''Battery'' @ [LF]),
                   capacity_file = HasInt 42, online_file = NoFile,
                   status_file = Some (status @ [LF])\<rparr>"

definition usb_port :: psy_entry where
  "usb_port = \<lparr>d_name = ''ucsi-source-psy-1'', type_file = Some (''USB'' @ [LF]),
                capacity_file = NoFile, online_file = HasInt 0, status_file = None\<rparr>"

text \<open>An adapter that is not online, and a second battery without a \<^verbatim>\<open>status\<close> file.\<close>

definition mains_off :: psy_entry where
  "mains_off = \<lparr>d_name = ''AC0'', type_file = Some (''Mains'' @ [LF]),
                 capacity_file = NoFile, online_file = HasInt 0, status_file = None\<rparr>"

definition bat1_no_status :: psy_entry where
  "bat1_no_status = \<lparr>d_name = ''BAT1'', type_file = Some (''Battery'' @ [LF]),
                      capacity_file = HasInt 80, online_file = NoFile, status_file = None\<rparr>"

text \<open>
  The part of one iteration that concerns the tailed file (lines 409 to 412), after
  another process has appended \<open>bytes\<close> to the file.
\<close>

definition tail_tick :: "string \<Rightarrow> stream option \<times> debug_log \<Rightarrow> stream option \<times> debug_log" where
  "tail_tick bytes st =
     (case read_debug_file (map_option (file_append bytes) (fst st)) (snd st) of
        (updated, fp, lg) \<Rightarrow> (fp, lg))"

text \<open>
  A line that fits the buffer of \<^verbatim>\<open>read_debug_file\<close> together with its newline
  (\<^verbatim>\<open>char line[1024]\<close>: at most 1023 bytes per read).
\<close>

definition fits_line :: "string \<Rightarrow> bool" where
  "fits_line l = (length l \<le> 1022 \<and> LF \<notin> set l)"

text \<open>The part of a line before its first CR or NUL byte; a line without such bytes.\<close>

definition line_shown :: "string \<Rightarrow> string" where
  "line_shown l = takeWhile (\<lambda>c. c \<noteq> CR \<and> c \<noteq> NUL) l"

definition plain_line :: "string \<Rightarrow> bool" where
  "plain_line l = (CR \<notin> set l \<and> NUL \<notin> set l)"

text \<open>The bytes of a sequence of lines, each ended by a newline.\<close>

definition lines_bytes :: "string list \<Rightarrow> string" where
  "lines_bytes ls = concat (map (\<lambda>l. l @ [LF]) ls)"

text \<open>A stream that has read all of its file and whose end-of-file indicator is clear.\<close>

definition at_end :: "stream \<Rightarrow> bool" where
  "at_end f = (f_pos f = length (f_content f) \<and> \<not> f_eof f)"

text \<open>A line of 1024 bytes.\<close>

definition long_line :: string where
  "long_line = replicate 1024 (CHR ''a'')"

text \<open>What the tailed file holds when the program starts.\<close>

definition old_file :: string where
  "old_file = ''boot'' @ [LF]"

text \<open>\<^verbatim>\<open>/proc/stat\<close> and \<^verbatim>\<open>/proc/meminfo\<close> can be opened in this iteration.\<close>

definition tick_sources_open :: "tick_input \<Rightarrow> bool" where
  "tick_sources_open i = (cpu_in i \<noteq> CpuFopenFail \<and> mem_in i \<noteq> MemFopenFail)"

text \<open>Inputs of a start and of two iterations.\<close>

definition mem_table :: "(string \<times> u64 \<times> string) list" where
  "mem_table = [(''MemTotal:'', 8000000, ''kB''), (''MemFree:'', 2000000, ''kB''),
                (''Buffers:'', 500000, ''kB''), (''Cached:'', 1500000, ''kB''),
                (''SwapTotal:'', 1000000, ''kB''), (''SwapFree:'', 750000, ''kB'')]"

definition scan_full :: sscanf_result where
  "scan_full = Scan6 (Fin (2 / 25)) (Fin (3 / 100)) (Fin (1 / 20)) 2 278 1234"

definition boot_input :: startup_input where
  "boot_input = \<lparr>argv1 = None, sigaction_ok = True, winsize0 = Some (80, 24),
                  cpu0 = CpuRead cpu_a, load0 = LoadLine scan_full,
                  power0_dir1 = None, power0_dir2 = None, loads_auto = loads_old\<rparr>"

definition cpu_fail_tick :: tick_input where
  "cpu_fail_tick = \<lparr>sigwinch = None, cpu_in = CpuFopenFail, mem_in = MemTable mem_table,
                     load_in = LoadLine scan_full, power_dir1 = None, power_dir2 = None,
                     dbg_appended = []\<rparr>"

definition boot_tail_input :: startup_input where
  "boot_tail_input = \<lparr>argv1 = Some (Some old_file), sigaction_ok = True,
                       winsize0 = Some (120, 40), cpu0 = CpuRead cpu_a, load0 = LoadLine scan_full,
                       power0_dir1 = Some [bat0 ''Discharging''],
                       power0_dir2 = Some [bat0 ''Discharging''], loads_auto = loads_old\<rparr>"

definition soft_fail_tick :: tick_input where
  "soft_fail_tick = \<lparr>sigwinch = None, cpu_in = CpuRead cpu_b, mem_in = MemTable mem_table,
                      load_in = LoadFgetsFail,
                      power_dir1 = Some [bat0 ''Discharging'', bat1_no_status],
                      power_dir2 = Some [bat0 ''Discharging'', bat1_no_status],
                      dbg_appended = ''started'' @ [LF]\<rparr>"

section \<open>Facts about the debug log buffer\<close>

lemma memmove_down_full:
  assumes len: "length a = Suc n"
  shows "(memmove_down n a)[n := v] = tl a @ [v]"
proof -
  from len obtain x xs where a: "a = x # xs" and n: "length xs = n"
    by (cases a) auto
  have "length (drop n a) = 1" using len by simp
  then obtain z where z: "drop n a = [z]"
    by (cases "drop n a") auto
  have "memmove_down n a = xs @ [z]"
    using a n z by (simp add: memmove_down_def)
  then show ?thesis using a n [symmetric] by simp
qed

lemma log_ok_init: "log_ok debug_log_init"
  by (simp add: log_ok_def debug_log_init_def)

lemma log_contents_init: "log_contents debug_log_init = []"
  by (simp add: log_contents_def debug_log_init_def)

lemma append_not_full:
  assumes "log_ok lg" "debug_line_count lg < MAX_DEBUG_LINES"
  shows "log_ok (debug_log_append line lg)"
    and "log_contents (debug_log_append line lg) = log_contents lg @ [line]"
  using assms
  by (simp_all add: log_ok_def debug_log_append_def log_contents_def Let_def
        take_Suc_conv_app_nth)

lemma append_full:
  assumes "log_ok lg" "debug_line_count lg = MAX_DEBUG_LINES"
  shows "log_ok (debug_log_append line lg)"
    and "log_contents (debug_log_append line lg) = tl (log_contents lg) @ [line]"
proof -
  have len: "length (debug_lines lg) = Suc (MAX_DEBUG_LINES - 1)"
    using assms by (simp add: log_ok_def MAX_DEBUG_LINES_def)
  have upd: "(memmove_down (MAX_DEBUG_LINES - 1) (debug_lines lg))[MAX_DEBUG_LINES - 1 := line]
               = tl (debug_lines lg) @ [line]"
    by (rule memmove_down_full [OF len])
  have dl: "debug_lines (debug_log_append line lg) = tl (debug_lines lg) @ [line]"
    using assms upd by (simp add: debug_log_append_def Let_def)
  have cnt: "debug_line_count (debug_log_append line lg) = MAX_DEBUG_LINES"
    using assms by (simp add: debug_log_append_def Let_def MAX_DEBUG_LINES_def)
  show "log_ok (debug_log_append line lg)"
    using dl cnt len by (simp add: log_ok_def MAX_DEBUG_LINES_def)
  show "log_contents (debug_log_append line lg) = tl (log_contents lg) @ [line]"
    using dl cnt len assms by (simp add: log_contents_def log_ok_def)
qed

lemma log_ok_append: "log_ok lg \<Longrightarrow> log_ok (debug_log_append line lg)"
  using append_not_full(1) append_full(1) by (cases "debug_line_count lg < MAX_DEBUG_LINES")
    (auto simp: log_ok_def)

lemma length_log_contents: "log_ok lg \<Longrightarrow> length (log_contents lg) = debug_line_count lg"
  by (simp add: log_ok_def log_contents_def)

lemma log_contents_append:
  assumes "log_ok lg"
  shows "log_contents (debug_log_append line lg) = lastn MAX_DEBUG_LINES (log_contents lg @ [line])"
proof (cases "debug_line_count lg < MAX_DEBUG_LINES")
  case True
  then show ?thesis
    using assms append_not_full(2) [OF assms True] length_log_contents [OF assms]
    by (simp add: lastn_def)
next
  case False
  then have full: "debug_line_count lg = MAX_DEBUG_LINES"
    using assms by (simp add: log_ok_def)
  have "length (log_contents lg) = MAX_DEBUG_LINES"
    using length_log_contents [OF assms] full by simp
  then show ?thesis
    using append_full(2) [OF assms full]
    by (cases "log_contents lg") (simp_all add: lastn_def MAX_DEBUG_LINES_def)
qed

lemma lastn_lastn_snoc: "lastn n (lastn n xs @ [x]) = lastn n (xs @ [x])"
proof (cases "length xs \<le> n \<or> n = 0")
  case True
  then show ?thesis by (auto simp: lastn_def)
next
  case False
  then have "length (lastn n xs) = n" by (simp add: lastn_def)
  then have "lastn n (lastn n xs @ [x]) = drop 1 (lastn n xs) @ [x]"
    using False by (simp add: lastn_def)
  also have "\<dots> = drop (Suc (length xs - n)) xs @ [x]"
    by (simp add: lastn_def)
  also have "\<dots> = lastn n (xs @ [x])"
    using False by (simp add: lastn_def Suc_diff_le)
  finally show ?thesis .
qed

lemma log_ok_fold: "log_ok lg \<Longrightarrow> log_ok (fold debug_log_append ls lg)"
  by (induction ls arbitrary: lg) (simp_all add: log_ok_append)

lemma log_contents_fold:
  "log_ok lg \<Longrightarrow> log_contents lg = lastn MAX_DEBUG_LINES old \<Longrightarrow>
   log_contents (fold debug_log_append ls lg) = lastn MAX_DEBUG_LINES (old @ ls)"
proof (induction ls arbitrary: lg old)
  case Nil
  then show ?case by simp
next
  case (Cons l ls)
  have "log_contents (debug_log_append l lg) = lastn MAX_DEBUG_LINES (old @ [l])"
    using Cons.prems by (simp add: log_contents_append lastn_lastn_snoc)
  from Cons.IH [OF log_ok_append [OF Cons.prems(1)] this]
  show ?case by simp
qed

section \<open>The debug log buffer is a bounded FIFO\<close>

text \<open>
  C7. The debug log buffer is a bounded FIFO of capacity \<open>MAX_DEBUG_LINES = 12\<close>.
  Started empty and fed any sequence of lines \<open>ls\<close>, it holds at most 12 lines, and
  they are exactly the last 12 lines of \<open>ls\<close> (all of \<open>ls\<close> when it is shorter), oldest
  first. One more append adds the line at the end when the buffer is not full, and
  otherwise drops exactly the oldest line and adds the new one at the end.
\<close>

theorem debug_log_bounded_fifo:
  "log_contents (fold debug_log_append ls debug_log_init) = lastn MAX_DEBUG_LINES ls
   \<and> length (log_contents (fold debug_log_append ls debug_log_init)) \<le> MAX_DEBUG_LINES
   \<and> log_contents (debug_log_append l (fold debug_log_append ls debug_log_init)) =
       (if length ls < MAX_DEBUG_LINES
        then log_contents (fold debug_log_append ls debug_log_init) @ [l]
        else tl (log_contents (fold debug_log_append ls debug_log_init)) @ [l])"
proof -
  let ?lg = "fold debug_log_append ls debug_log_init"
  have ok: "log_ok ?lg" by (rule log_ok_fold [OF log_ok_init])
  have c: "log_contents ?lg = lastn MAX_DEBUG_LINES ls"
    using log_contents_fold [OF log_ok_init, of "[]" ls]
    by (simp add: log_contents_init lastn_def)
  have len: "length (log_contents ?lg) \<le> MAX_DEBUG_LINES"
    using c by (simp add: lastn_def)
  have cnt: "debug_line_count ?lg = min (length ls) MAX_DEBUG_LINES"
    using length_log_contents [OF ok] c by (simp add: lastn_def)
  have step: "log_contents (debug_log_append l ?lg) =
       (if length ls < MAX_DEBUG_LINES then log_contents ?lg @ [l]
        else tl (log_contents ?lg) @ [l])"
  proof (cases "length ls < MAX_DEBUG_LINES")
    case True
    then have "debug_line_count ?lg < MAX_DEBUG_LINES" using cnt by simp
    from append_not_full(2) [OF ok this] True show ?thesis by simp
  next
    case False
    then have "debug_line_count ?lg = MAX_DEBUG_LINES" using cnt by simp
    from append_full(2) [OF ok this] False show ?thesis by simp
  qed
  from c len step show ?thesis by blast
qed

theorem debug_log_bounded_fifo_witness:
  "log_contents (fold debug_log_append
      [''l1'', ''l2'', ''l3'', ''l4'', ''l5'', ''l6'', ''l7'', ''l8'', ''l9'', ''l10'', ''l11'',
       ''l12'', ''l13''] debug_log_init)
   = [''l2'', ''l3'', ''l4'', ''l5'', ''l6'', ''l7'', ''l8'', ''l9'', ''l10'', ''l11'', ''l12'',
      ''l13'']"
  using debug_log_bounded_fifo
    [of "[''l1'', ''l2'', ''l3'', ''l4'', ''l5'', ''l6'', ''l7'', ''l8'', ''l9'', ''l10'', ''l11'',
       ''l12'', ''l13'']"]
  by (simp add: lastn_def MAX_DEBUG_LINES_def)

section \<open>The history arrays slide\<close>

lemma hist_shift_in_tl:
  "length h = MAXW \<Longrightarrow> hist_shift_in v h = tl h @ [v]"
  unfolding hist_shift_in_def
  by (rule memmove_down_full) (simp add: MAXW_def)

lemma length_hist_shift_in: "length h = MAXW \<Longrightarrow> length (hist_shift_in v h) = MAXW"
  by (simp add: hist_shift_in_tl) (simp add: MAXW_def)

lemma lastn_full_append:
  "length h = n \<Longrightarrow> lastn n (h @ xs) = drop (length xs) (h @ xs)"
  by (simp add: lastn_def)

lemma fold_history_push:
  "length hc = MAXW \<Longrightarrow> length hm = MAXW \<Longrightarrow>
   fold history_push pts (hc, hm) =
     (lastn MAXW (hc @ map fst pts), lastn MAXW (hm @ map snd pts))"
proof (induction pts arbitrary: hc hm)
  case Nil
  then show ?case by (simp add: lastn_def)
next
  case (Cons p pts)
  have ne: "hc \<noteq> []" "hm \<noteq> []" using Cons.prems by (auto simp: MAXW_def)
  have step: "history_push p (hc, hm) = (tl hc @ [fst p], tl hm @ [snd p])"
    using Cons.prems by (simp add: history_push_def hist_shift_in_tl)
  have l1: "length (tl hc @ [fst p]) = MAXW" "length (tl hm @ [snd p]) = MAXW"
    using Cons.prems by (simp_all add: MAXW_def)
  have a: "lastn MAXW ((tl hc @ [fst p]) @ map fst pts) = lastn MAXW (hc @ map fst (p # pts))"
  proof -
    have "lastn MAXW ((tl hc @ [fst p]) @ map fst pts)
            = drop (length (map fst pts)) ((tl hc @ [fst p]) @ map fst pts)"
      by (rule lastn_full_append [OF l1(1)])
    also have "\<dots> = drop (length (map fst (p # pts))) (hc @ map fst (p # pts))"
      using ne(1) by (cases hc) simp_all
    also have "\<dots> = lastn MAXW (hc @ map fst (p # pts))"
      by (rule lastn_full_append [OF Cons.prems(1), symmetric])
    finally show ?thesis .
  qed
  have b: "lastn MAXW ((tl hm @ [snd p]) @ map snd pts) = lastn MAXW (hm @ map snd (p # pts))"
  proof -
    have "lastn MAXW ((tl hm @ [snd p]) @ map snd pts)
            = drop (length (map snd pts)) ((tl hm @ [snd p]) @ map snd pts)"
      by (rule lastn_full_append [OF l1(2)])
    also have "\<dots> = drop (length (map snd (p # pts))) (hm @ map snd (p # pts))"
      using ne(2) by (cases hm) simp_all
    also have "\<dots> = lastn MAXW (hm @ map snd (p # pts))"
      by (rule lastn_full_append [OF Cons.prems(2), symmetric])
    finally show ?thesis .
  qed
  show ?case
    using Cons.IH [OF l1] step a b by simp
qed

lemma lastn_append_long: "n \<le> length xs \<Longrightarrow> lastn n (h @ xs) = lastn n xs"
  by (simp add: lastn_def)

lemma lastn_lastn:
  assumes "m \<le> n"
  shows "lastn m (lastn n xs) = lastn m xs"
proof -
  have e: "length xs - (length xs - n) - m + (length xs - n) = length xs - m"
    using assms by arith
  show ?thesis unfolding lastn_def length_drop drop_drop e ..
qed

text \<open>
  C6. On arrays of \<open>MAXW\<close> cells, one history push moves every entry of both arrays one
  cell towards index 0, drops the entry of cell 0 and stores the new CPU and memory
  values in the last cell. After the pushes of the points \<open>pts\<close>, in this order, each
  array holds the last \<open>MAXW\<close> values of its old contents followed by the pushed values;
  once \<open>MAXW\<close> or more points were pushed these are exactly the last \<open>MAXW\<close> pushed
  values, oldest first, and the \<open>gw\<close> columns the renderer shows are the last \<open>gw\<close>
  pushed values as soon as \<open>gw\<close> points were pushed.
\<close>

theorem history_push_slides:
  assumes "length hc = MAXW" and "length hm = MAXW"
  shows "history_push (c, m) (hc, hm) = (tl hc @ [c], tl hm @ [m])
    \<and> (\<forall>k < MAXW - 1. fst (history_push (c, m) (hc, hm)) ! k = hc ! (k + 1)
                      \<and> snd (history_push (c, m) (hc, hm)) ! k = hm ! (k + 1))
    \<and> fst (history_push (c, m) (hc, hm)) ! (MAXW - 1) = c
    \<and> snd (history_push (c, m) (hc, hm)) ! (MAXW - 1) = m
    \<and> fold history_push pts (hc, hm) =
        (lastn MAXW (hc @ map fst pts), lastn MAXW (hm @ map snd pts))
    \<and> (MAXW \<le> length pts \<longrightarrow>
        fold history_push pts (hc, hm) = (lastn MAXW (map fst pts), lastn MAXW (map snd pts)))
    \<and> (gw \<le> MAXW \<and> gw \<le> length pts \<longrightarrow>
        visible gw (fst (fold history_push pts (hc, hm))) = lastn gw (map fst pts) \<and>
        visible gw (snd (fold history_push pts (hc, hm))) = lastn gw (map snd pts))"
proof -
  have one: "history_push (c, m) (hc, hm) = (tl hc @ [c], tl hm @ [m])"
    using assms by (simp add: history_push_def hist_shift_in_tl)
  have len: "length (tl hc) = MAXW - 1" "length (tl hm) = MAXW - 1"
    using assms by simp_all
  have shift: "\<forall>k < MAXW - 1. fst (history_push (c, m) (hc, hm)) ! k = hc ! (k + 1)
                      \<and> snd (history_push (c, m) (hc, hm)) ! k = hm ! (k + 1)"
    using one len assms by (simp add: nth_append nth_tl)
  have newest: "fst (history_push (c, m) (hc, hm)) ! (MAXW - 1) = c"
      "snd (history_push (c, m) (hc, hm)) ! (MAXW - 1) = m"
    using one len by (simp_all add: nth_append)
  have many: "fold history_push pts (hc, hm) =
        (lastn MAXW (hc @ map fst pts), lastn MAXW (hm @ map snd pts))"
    by (rule fold_history_push [OF assms])
  have full: "MAXW \<le> length pts \<longrightarrow>
        fold history_push pts (hc, hm) = (lastn MAXW (map fst pts), lastn MAXW (map snd pts))"
    using many by (simp add: lastn_append_long)
  have vis: "gw \<le> MAXW \<and> gw \<le> length pts \<longrightarrow>
        visible gw (fst (fold history_push pts (hc, hm))) = lastn gw (map fst pts) \<and>
        visible gw (snd (fold history_push pts (hc, hm))) = lastn gw (map snd pts)"
  proof
    assume g: "gw \<le> MAXW \<and> gw \<le> length pts"
    have l: "length (lastn MAXW (hc @ map fst pts)) = MAXW"
        "length (lastn MAXW (hm @ map snd pts)) = MAXW"
      using assms by (simp_all add: lastn_def)
    have v: "\<And>xs :: double list. length xs = MAXW \<Longrightarrow> visible gw xs = lastn gw xs"
      by (simp add: visible_def lastn_def)
    show "visible gw (fst (fold history_push pts (hc, hm))) = lastn gw (map fst pts) \<and>
        visible gw (snd (fold history_push pts (hc, hm))) = lastn gw (map snd pts)"
      using g many v [OF l(1)] v [OF l(2)]
      by (simp add: lastn_lastn lastn_append_long)
  qed
  from one shift newest many full vis show ?thesis by blast
qed

theorem history_push_slides_witness:
  "history_push (Fin 1, Fin 2) (replicate MAXW (Fin 0), replicate MAXW (Fin 0))
     = (tl (replicate MAXW (Fin 0)) @ [Fin 1], tl (replicate MAXW (Fin 0)) @ [Fin 2])
   \<and> visible 2 (fst (fold history_push [(Fin 1, Fin 2), (Fin 3, Fin 4)]
        (replicate MAXW (Fin 0), replicate MAXW (Fin 0)))) = [Fin 1, Fin 3]"
proof -
  let ?h = "replicate MAXW (Fin 0)"
  let ?pts = "[(Fin 1, Fin 2), (Fin 3, Fin 4)]"
  have l: "length ?h = MAXW" by simp
  have g: "(2::nat) \<le> MAXW \<and> 2 \<le> length ?pts"
    by (simp add: MAXW_def)
  note t = history_push_slides [OF l l, of "Fin 1" "Fin 2" ?pts 2]
  from t have one: "history_push (Fin 1, Fin 2) (?h, ?h) = (tl ?h @ [Fin 1], tl ?h @ [Fin 2])"
    by (rule conjunct1)
  from t g have "visible 2 (fst (fold history_push ?pts (?h, ?h))) = lastn 2 (map fst ?pts)"
    by blast
  moreover have "lastn 2 (map fst ?pts) = [Fin 1, Fin 3]"
    by (simp add: lastn_def)
  ultimately have "visible 2 (fst (fold history_push ?pts (?h, ?h))) = [Fin 1, Fin 3]"
    by (rule trans)
  with one show ?thesis by (rule conjI)
qed

section \<open>The CPU sampler: zero delta and range\<close>

lemma get_cpu_usage_unfold:
  "get_cpu_usage (CpuRead cur) p =
     (if total_of cur - total_of p > 0
      then Inr (dmul (ddiv (u64_to_double ((total_of cur - total_of p) - (idle_of cur - idle_of p)))
                           (u64_to_double (total_of cur - total_of p))) 100,
                cur,
                dmul (ddiv (u64_to_double (iowait cur - iowait p))
                           (u64_to_double (total_of cur - total_of p))) 100)
      else Inr (Fin 0, cur, Fin 0))"
  by (simp add: get_cpu_usage_def get_cpu_stats_def Let_def total_of_def idle_of_def)

text \<open>
  C2, as the program is written. The delta is computed modulo \<open>2 ^ 64\<close>
  (\<^verbatim>\<open>unsigned long long\<close>). When the counters go back (a reset), here from the
  snapshot \<open>cpu_b\<close> to the snapshot \<open>cpu_a\<close>, the total delta is not zero: it wraps
  around to \<open>2 ^ 64 - 100\<close>, the test \<^verbatim>\<open>diff_total > 0\<close> succeeds, and both
  percentages are computed from the wrapped deltas. Neither is 0.
\<close>

theorem cpu_reset_counterexample:
  "total_of cpu_a < total_of cpu_b
   \<and> total_of cpu_a - total_of cpu_b = 18446744073709551516
   \<and> get_cpu_usage (CpuRead cpu_a) cpu_b
       = Inr (Fin (18446744073709551576 / 18446744073709551516 * 100), cpu_a,
              Fin (18446744073709551606 / 18446744073709551516 * 100))
   \<and> get_cpu_usage (CpuRead cpu_a) cpu_b \<noteq> Inr (Fin 0, cpu_a, Fin 0)"
  by (simp add: total_of_def idle_of_def cpu_a_def cpu_b_def get_cpu_usage_unfold ddiv_def
        u64_to_double_def word_greater_zero_iff)

text \<open>
  C2, amended. When the total-counter delta that the sampler computes (modulo
  \<open>2 ^ 64\<close>) is zero, in particular for two identical snapshots, the sampler returns
  a busy percentage of 0 and sets the iowait percentage to 0. No division by zero
  occurs for any pair of snapshots, so at every tick, the first one included: both
  results are always finite numbers, never an infinity or a NaN. After a counter
  reset that makes the total go back, the delta is not zero: the sampler divides the
  wrapped busy and iowait deltas by the wrapped total delta.
\<close>

theorem cpu_zero_delta:
  "(total_of c - total_of p = 0 \<longrightarrow> get_cpu_usage (CpuRead c) p = Inr (Fin 0, c, Fin 0))
   \<and> get_cpu_usage (CpuRead p) p = Inr (Fin 0, p, Fin 0)
   \<and> (\<exists>b w. get_cpu_usage (CpuRead c) p = Inr (Fin b, c, Fin w))
   \<and> (total_of c < total_of p \<longrightarrow>
        total_of c - total_of p \<noteq> 0
        \<and> get_cpu_usage (CpuRead c) p =
            Inr (Fin (real (unat ((total_of c - total_of p) - (idle_of c - idle_of p)))
                        / real (unat (total_of c - total_of p)) * 100),
                 c,
                 Fin (real (unat (iowait c - iowait p))
                        / real (unat (total_of c - total_of p)) * 100)))"
proof -
  have z: "(total_of c - total_of p = 0 \<longrightarrow> get_cpu_usage (CpuRead c) p = Inr (Fin 0, c, Fin 0))
   \<and> get_cpu_usage (CpuRead p) p = Inr (Fin 0, p, Fin 0)
   \<and> (\<exists>b w. get_cpu_usage (CpuRead c) p = Inr (Fin b, c, Fin w))"
    by (simp add: get_cpu_usage_unfold ddiv_def u64_to_double_def unsigned_eq_0_iff
        word_greater_zero_iff)
  have r: "total_of c - total_of p \<noteq> 0
        \<and> get_cpu_usage (CpuRead c) p =
            Inr (Fin (real (unat ((total_of c - total_of p) - (idle_of c - idle_of p)))
                        / real (unat (total_of c - total_of p)) * 100),
                 c,
                 Fin (real (unat (iowait c - iowait p))
                        / real (unat (total_of c - total_of p)) * 100))"
    if "total_of c < total_of p"
  proof -
    from that have n: "total_of c - total_of p \<noteq> 0" by auto
    then show ?thesis
      by (auto simp: get_cpu_usage_unfold ddiv_def u64_to_double_def unsigned_eq_0_iff
            word_greater_zero_iff)
  qed
  from z r show ?thesis by blast
qed

theorem cpu_zero_delta_witness:
  "total_of cpu_c - total_of cpu_a = 0
   \<and> get_cpu_usage (CpuRead cpu_c) cpu_a = Inr (Fin 0, cpu_c, Fin 0)
   \<and> total_of cpu_a < total_of cpu_b
   \<and> get_cpu_usage (CpuRead cpu_a) cpu_b =
       Inr (Fin (real (unat ((total_of cpu_a - total_of cpu_b) - (idle_of cpu_a - idle_of cpu_b)))
                   / real (unat (total_of cpu_a - total_of cpu_b)) * 100),
            cpu_a,
            Fin (real (unat (iowait cpu_a - iowait cpu_b))
                   / real (unat (total_of cpu_a - total_of cpu_b)) * 100))
   \<and> unat (total_of cpu_a - total_of cpu_b) = 18446744073709551516
   \<and> unat (iowait cpu_a - iowait cpu_b) = 18446744073709551606"
proof -
  have h: "total_of cpu_c - total_of cpu_a = 0"
    by (simp add: total_of_def cpu_a_def cpu_c_def)
  have g: "total_of cpu_a < total_of cpu_b"
    by (simp add: total_of_def cpu_a_def cpu_b_def)
  have v: "unat (total_of cpu_a - total_of cpu_b) = 18446744073709551516"
    "unat (iowait cpu_a - iowait cpu_b) = 18446744073709551606"
    by (simp_all add: total_of_def cpu_a_def cpu_b_def)
  from cpu_zero_delta [of cpu_c cpu_a] h
  have one: "get_cpu_usage (CpuRead cpu_c) cpu_a = Inr (Fin 0, cpu_c, Fin 0)" by blast
  from cpu_zero_delta [of cpu_a cpu_b] g
  have two: "get_cpu_usage (CpuRead cpu_a) cpu_b =
       Inr (Fin (real (unat ((total_of cpu_a - total_of cpu_b) - (idle_of cpu_a - idle_of cpu_b)))
                   / real (unat (total_of cpu_a - total_of cpu_b)) * 100),
            cpu_a,
            Fin (real (unat (iowait cpu_a - iowait cpu_b))
                   / real (unat (total_of cpu_a - total_of cpu_b)) * 100))" by blast
  from h one g two v show ?thesis by blast
qed

lemma incr_word: "fld p \<le> fld c \<Longrightarrow> unat (fld c - fld p) = incr fld p c"
  by (simp add: incr_def unat_sub)

lemma total_split:
  "total_of c - total_of p =
     (idle c - idle p) + (iowait c - iowait p) + ((user c - user p) + (nice c - nice p)
       + (system c - system p) + (irq c - irq p) + (softirq c - softirq p) + (steal c - steal p))"
  by (simp add: total_of_def algebra_simps)

lemma idle_split: "idle_of c - idle_of p = (idle c - idle p) + (iowait c - iowait p)"
  by (simp add: idle_of_def algebra_simps)

lemma busy_split:
  "(total_of c - total_of p) - (idle_of c - idle_of p) =
     (user c - user p) + (nice c - nice p) + (system c - system p)
       + (irq c - irq p) + (softirq c - softirq p) + (steal c - steal p)"
  by (simp add: total_of_def idle_of_def algebra_simps)

lemma unat_add_small: "unat (a::u64) + unat b < 2 ^ 64 \<Longrightarrow> unat (a + b) = unat a + unat b"
  by (simp add: unat_add_lem [THEN iffD1])

lemma deltas:
  assumes nd: "non_decreasing p c" and small: "total_incr p c < 2 ^ 64"
  shows "unat (total_of c - total_of p) = total_incr p c"
    and "unat (idle_of c - idle_of p) = incr idle p c + incr iowait p c"
    and "unat ((total_of c - total_of p) - (idle_of c - idle_of p)) =
           incr user p c + incr nice p c + incr system p c + incr irq p c +
           incr softirq p c + incr steal p c"
    and "unat (iowait c - iowait p) = incr iowait p c"
proof -
  have u: "unat (user c - user p) = incr user p c" "unat (nice c - nice p) = incr nice p c"
    "unat (system c - system p) = incr system p c" "unat (idle c - idle p) = incr idle p c"
    "unat (iowait c - iowait p) = incr iowait p c" "unat (irq c - irq p) = incr irq p c"
    "unat (softirq c - softirq p) = incr softirq p c" "unat (steal c - steal p) = incr steal p c"
    using nd by (simp_all add: non_decreasing_def incr_word)
  have s: "unat (user c - user p) + unat (nice c - nice p) + unat (system c - system p)
     + unat (idle c - idle p) + unat (iowait c - iowait p) + unat (irq c - irq p)
     + unat (softirq c - softirq p) + unat (steal c - steal p) < 2 ^ 64"
    using small by (simp add: u total_incr_def)
  show "unat (total_of c - total_of p) = total_incr p c"
    unfolding total_split using s by (simp add: unat_add_small u total_incr_def)
  show "unat (idle_of c - idle_of p) = incr idle p c + incr iowait p c"
    unfolding idle_split using s by (simp add: unat_add_small u)
  show "unat ((total_of c - total_of p) - (idle_of c - idle_of p)) =
           incr user p c + incr nice p c + incr system p c + incr irq p c +
           incr softirq p c + incr steal p c"
    unfolding busy_split using s by (simp add: unat_add_small u)
  show "unat (iowait c - iowait p) = incr iowait p c" by (rule u(5))
qed

lemma pct_bounds:
  fixes n d :: nat
  assumes "n \<le> d" "0 < d"
  shows "0 \<le> real n / real d * 100" "real n / real d * 100 \<le> 100"
  using assms by (simp_all add: field_simps)

lemma pct_sum:
  fixes n i d :: nat
  assumes "d = i + n" "0 < d"
  shows "real n / real d * 100 + real i / real d * 100 = 100"
proof -
  have r1: "real d = real i + real n" using assms(1) by simp
  have r2: "real d \<noteq> 0" using assms(2) by simp
  have "real n / real d * 100 + real i / real d * 100 = (real i + real n) / real d * 100"
    by (simp add: add_divide_distrib)
  also have "\<dots> = real d / real d * 100" by (simp only: r1)
  also have "\<dots> = 100" using r2 by simp
  finally show ?thesis .
qed

lemma cpu_usage_pos:
  assumes "0 < total_of c - total_of p"
  shows "get_cpu_usage (CpuRead c) p =
     Inr (Fin (real (unat ((total_of c - total_of p) - (idle_of c - idle_of p)))
                 / real (unat (total_of c - total_of p)) * 100),
          c,
          Fin (real (unat (iowait c - iowait p)) / real (unat (total_of c - total_of p)) * 100))"
  using assms by (auto simp: get_cpu_usage_unfold ddiv_def u64_to_double_def unsigned_eq_0_iff)

text \<open>
  C5, as the program is written. The counters are 64-bit and the sampler adds and
  subtracts them modulo \<open>2 ^ 64\<close>. From the snapshot with all counters 0 to the one
  with \<open>user = 2 ^ 64 - 1\<close> and \<open>idle = 2\<close> every counter is non-decreasing and the
  computed total delta is \<open>1 > 0\<close>, yet the idle delta is 2, the busy delta wraps to
  \<open>2 ^ 64 - 1\<close> and the busy percentage is far above 100.
\<close>

theorem cpu_pct_wraparound_counterexample:
  "non_decreasing cpu_zero cpu_wrap \<and> 0 < total_of cpu_wrap - total_of cpu_zero
   \<and> get_cpu_usage (CpuRead cpu_wrap) cpu_zero
       = Inr (Fin 1844674407370955161500, cpu_wrap, Fin 0)
   \<and> \<not> (1844674407370955161500 \<le> (100::real))"
  by (simp add: non_decreasing_def total_of_def idle_of_def cpu_zero_def cpu_wrap_def
        get_cpu_usage_unfold ddiv_def u64_to_double_def)

text \<open>
  C5, amended. For two consecutive snapshots in which each of the eight counters is
  non-decreasing, the computed total delta is positive and the eight increments add up
  to less than \<open>2 ^ 64\<close> (so that no sum or difference of the sampler wraps around), the
  busy percentage and the iowait percentage are finite and lie in \<open>[0, 100]\<close>, and the
  busy percentage plus the idle percentage is 100. The arithmetic on \<^verbatim>\<open>double\<close> is
  exact here, so the sum is exactly 100.
\<close>

theorem cpu_pct_in_range:
  assumes nd: "non_decreasing p c" and pos: "0 < total_of c - total_of p"
    and small: "total_incr p c < 2 ^ 64"
  shows "\<exists>b w. get_cpu_usage (CpuRead c) p = Inr (Fin b, c, Fin w)
           \<and> 0 \<le> b \<and> b \<le> 100 \<and> 0 \<le> w \<and> w \<le> 100 \<and> b + idle_pct p c = 100"
proof -
  define D where "D = unat (total_of c - total_of p)"
  define I where "I = unat (idle_of c - idle_of p)"
  define N where "N = unat ((total_of c - total_of p) - (idle_of c - idle_of p))"
  define W where "W = unat (iowait c - iowait p)"
  note d = deltas [OF nd small]
  have Dpos: "0 < D" using pos unfolding D_def by (simp add: word_greater_zero_iff unat_gt_0)
  have sum: "D = I + N" unfolding D_def I_def N_def using d by (simp add: total_incr_def)
  have WD: "W \<le> D" unfolding D_def W_def using d by (simp add: total_incr_def)
  have ND: "N \<le> D" using sum by simp
  have run: "get_cpu_usage (CpuRead c) p =
      Inr (Fin (real N / real D * 100), c, Fin (real W / real D * 100))"
    unfolding D_def N_def W_def by (rule cpu_usage_pos [OF pos])
  have ip: "idle_pct p c = real I / real D * 100"
    unfolding idle_pct_def u64_to_double_def D_def I_def ..
  have c: "real N / real D * 100 + idle_pct p c = 100"
    unfolding ip by (rule pct_sum [OF sum Dpos])
  from run pct_bounds [OF ND Dpos] pct_bounds [OF WD Dpos] c show ?thesis by blast
qed

theorem cpu_pct_in_range_witness:
  "non_decreasing cpu_a cpu_b \<and> 0 < total_of cpu_b - total_of cpu_a
   \<and> total_incr cpu_a cpu_b < 2 ^ 64
   \<and> (\<exists>b w. get_cpu_usage (CpuRead cpu_b) cpu_a = Inr (Fin b, cpu_b, Fin w)
           \<and> 0 \<le> b \<and> b \<le> 100 \<and> 0 \<le> w \<and> w \<le> 100 \<and> b + idle_pct cpu_a cpu_b = 100)"
proof -
  have h1: "non_decreasing cpu_a cpu_b"
    by (simp add: non_decreasing_def cpu_a_def cpu_b_def)
  have h2: "0 < total_of cpu_b - total_of cpu_a"
    by (simp add: total_of_def cpu_a_def cpu_b_def)
  have h3: "total_incr cpu_a cpu_b < 2 ^ 64"
    by (simp add: total_incr_def incr_def cpu_a_def cpu_b_def)
  from cpu_pct_in_range [OF h1 h2 h3] h1 h2 h3 show ?thesis by blast
qed

section \<open>The memory sampler and a zero total\<close>

lemma u64_to_double_pos: "0 < u64_to_double w \<longleftrightarrow> w \<noteq> 0"
  unfolding u64_to_double_def by (simp del: of_nat_unat add: unat_gt_0)

lemma pct_div_zero:
  "dmul (ddiv (u64_to_double a) (u64_to_double 0)) 100 = (if a = 0 then NaN else PInf)"
  using u64_to_double_pos [of a] by (auto simp: ddiv_def) (simp_all add: u64_to_double_def)

text \<open>The swap half of the invariant holds: the division is guarded.\<close>

lemma swap_total_zero:
  "swap_total (fold mem_row rows mem_vars_init) = 0 \<Longrightarrow>
   \<exists>m. get_mem_usage (MemTable rows) = Inr (m, Fin 0)"
  by (simp add: get_mem_usage_def Let_def)

text \<open>The memory half has no guard: with a zero total the result is never a number.\<close>

lemma mem_total_zero:
  assumes "mem_total (fold mem_row rows mem_vars_init) = 0"
  shows "\<exists>s. get_mem_usage (MemTable rows) = Inr (NaN, s)
           \<or> get_mem_usage (MemTable rows) = Inr (PInf, s)"
  using assms by (simp add: get_mem_usage_def Let_def pct_div_zero)

text \<open>
  C3. The claim asks for a used-memory percentage of 0 when the reported total memory
  is zero, and for a swap percentage of 0 when the reported swap total is zero. On a
  table that reports \<^verbatim>\<open>MemTotal: 0 kB\<close> and \<^verbatim>\<open>SwapTotal: 0 kB\<close> the swap percentage is
  0, but the used-memory percentage is \<^verbatim>\<open>0.0 / 0 * 100.0\<close>, a NaN: the division by
  \<^verbatim>\<open>mem_total\<close> has no guard, unlike the division by \<^verbatim>\<open>swap_total\<close>.
\<close>

theorem get_mem_usage_zero_total:
  "get_mem_usage (MemTable mem_zero_total) = Inr (NaN, Fin 0)"
  by (simp add: get_mem_usage_def mem_zero_total_def mem_vars_init_def ddiv_def
        u64_to_double_def Let_def)

section \<open>The load sampler and a short line\<close>

text \<open>
  C4, as the program is written. \<^verbatim>\<open>sscanf\<close> stores through pointers to the fields of
  the caller's structure, so a line of which only two fields parse gives the error
  code \<open>-1\<close> and has already overwritten \<^verbatim>\<open>load_1min\<close> and \<^verbatim>\<open>load_5min\<close>.
\<close>

theorem parse_loadavg_short_counterexample:
  "sscanf_count scan_short < 6
   \<and> parse_loadavg (LoadLine scan_short) loads_old
       = (-1, \<lparr>load_1min = Fin (1 / 2), load_5min = Fin (2 / 5), load_15min = Fin 1,
                 running_processes = 1, total_processes = 100, last_pid = 4242\<rparr>)
   \<and> snd (parse_loadavg (LoadLine scan_short) loads_old) \<noteq> loads_old"
  by (simp add: parse_loadavg_def loads_old_def scan_short_def)

text \<open>
  C4, amended. For every loadavg line from which fewer than six fields parse, the load
  sampler returns \<open>-1\<close>; the fields that \<^verbatim>\<open>sscanf\<close> converted before it stopped hold the
  new values, and every field from the first unconverted one on keeps its previous
  value. So \<^verbatim>\<open>last_pid\<close> is always kept, and the whole snapshot is unchanged exactly
  when no field was converted; it is also unchanged, with \<open>-1\<close> returned, when the file
  cannot be opened or read.
\<close>

theorem parse_loadavg_short:
  assumes "sscanf_count r \<noteq> 6"
  shows "fst (parse_loadavg (LoadLine r) l) = -1
    \<and> snd (parse_loadavg (LoadLine r) l) = sscanf_store r l
    \<and> last_pid (snd (parse_loadavg (LoadLine r) l)) = last_pid l
    \<and> (sscanf_count r < 5 \<longrightarrow>
         total_processes (snd (parse_loadavg (LoadLine r) l)) = total_processes l)
    \<and> (sscanf_count r < 4 \<longrightarrow>
         running_processes (snd (parse_loadavg (LoadLine r) l)) = running_processes l)
    \<and> (sscanf_count r < 3 \<longrightarrow>
         load_15min (snd (parse_loadavg (LoadLine r) l)) = load_15min l)
    \<and> (sscanf_count r < 2 \<longrightarrow>
         load_5min (snd (parse_loadavg (LoadLine r) l)) = load_5min l)
    \<and> (sscanf_count r < 1 \<longrightarrow> snd (parse_loadavg (LoadLine r) l) = l)
    \<and> parse_loadavg LoadFopenFail l = (-1, l)
    \<and> parse_loadavg LoadFgetsFail l = (-1, l)"
  using assms by (cases r) (simp_all add: parse_loadavg_def)

theorem parse_loadavg_short_witness:
  "sscanf_count scan_short \<noteq> 6
   \<and> fst (parse_loadavg (LoadLine scan_short) loads_old) = -1
   \<and> load_15min (snd (parse_loadavg (LoadLine scan_short) loads_old)) = Fin 1
   \<and> last_pid (snd (parse_loadavg (LoadLine scan_short) loads_old)) = 4242"
proof -
  have h: "sscanf_count scan_short \<noteq> 6" by (simp add: scan_short_def)
  have c: "sscanf_count scan_short < 3" by (simp add: scan_short_def)
  have v: "load_15min loads_old = Fin 1" "last_pid loads_old = 4242"
    by (simp_all add: loads_old_def)
  note t = parse_loadavg_short [OF h, of loads_old]
  from t have a: "fst (parse_loadavg (LoadLine scan_short) loads_old) = -1"
    by (rule conjunct1)
  from t have b: "last_pid (snd (parse_loadavg (LoadLine scan_short) loads_old)) = last_pid loads_old"
    by blast
  from t c have d: "load_15min (snd (parse_loadavg (LoadLine scan_short) loads_old))
      = load_15min loads_old"
    by blast
  from h a b d show ?thesis unfolding v by blast
qed

section \<open>The summary line and the no-battery sentinel\<close>

text \<open>
  C10. When the power snapshot holds the sentinel \<open>battery_percent = -1\<close>, the second
  summary line is the very line printed for \<open>battery_percent = 0\<close> with the same
  \<^verbatim>\<open>on_ac\<close>: the battery figure shown is 0, and with \<open>on_ac = 0\<close> the line ends in
  \<^verbatim>\<open>(0% on batt)\<close>.
\<close>

theorem no_battery_shown_as_zero:
  "proc_power_line l \<lparr>battery_percent = -1, on_ac = a\<rparr>
     = proc_power_line l \<lparr>battery_percent = 0, on_ac = a\<rparr>
   \<and> proc_power_line l \<lparr>battery_percent = -1, on_ac = 0\<rparr>
     = '' > ['' @ printf_d (running_processes l) @ ''/'' @ printf_d (total_processes l) @
       ''] :: (0% on batt)'' @ [LF]"
  by (simp add: proc_power_line_def printf_d_def dec_digits.simps [of 0] digit_char_def)

theorem no_battery_shown_as_zero_witness:
  "proc_power_line loads_old \<lparr>battery_percent = -1, on_ac = 0\<rparr>
     = '' > [1/100] :: (0% on batt)'' @ [LF]"
proof -
  from no_battery_shown_as_zero [of loads_old 0]
  have eq: "proc_power_line loads_old \<lparr>battery_percent = -1, on_ac = 0\<rparr>
     = proc_power_line loads_old \<lparr>battery_percent = 0, on_ac = 0\<rparr>"
    by (rule conjunct1)
  have "proc_power_line loads_old \<lparr>battery_percent = 0, on_ac = 0\<rparr>
     = '' > [1/100] :: (0% on batt)'' @ [LF]"
    by code_simp
  with eq show ?thesis by (rule trans)
qed

section \<open>The power sampler: one battery and no AC adapter\<close>

lemma strstr_sublist: "strstr hay needle = sublist needle hay"
proof (induction hay)
  case Nil
  then show ?case by simp
next
  case (Cons h t)
  have "prefix needle (h # t) \<longleftrightarrow> take (length needle) (h # t) = needle"
    by (metis append_eq_conv_conj prefix_def append_take_drop_id)
  then show ?case using Cons by (simp add: sublist_Cons_right)
qed

lemma ac_type_marker: "ac_type t name = ac_marker t name"
  by (simp add: ac_type_def ac_marker_def strstr_sublist)

lemma other_device_cases:
  "other_device e =
     (dot_entry e \<or>
      (case type_file e of
         None \<Rightarrow> True
       | Some c \<Rightarrow> (case read_type_buf c of
                      None \<Rightarrow> True
                    | Some t \<Rightarrow> t \<noteq> ''Battery'' \<and> \<not> ac_type t (d_name e))))"
  by (auto simp: other_device_def battery_dev_def ac_dev_def entry_type_def
        ac_type_marker split: option.splits)

lemma power_pass1_skip: "list_all other_device es \<Longrightarrow> power_pass1 es st = st"
proof (induction es)
  case Nil
  then show ?case by simp
next
  case (Cons e es)
  obtain pw fb fa where st: "st = (pw, fb, fa)" by (cases st)
  from Cons show ?case
    by (auto simp: st other_device_cases split: option.splits)
qed

lemma power_pass1_append: "power_pass1 (xs @ ys) st = power_pass1 ys (power_pass1 xs st)"
proof (induction xs arbitrary: st)
  case Nil
  then show ?case by simp
next
  case (Cons e es)
  obtain pw fb fa where st: "st = (pw, fb, fa)" by (cases st)
  show ?case unfolding st
    by (simp add: Cons.IH Let_def split: option.splits)
qed

lemma power_pass2_skip:
  "list_all other_device es \<Longrightarrow> power_pass2 (es @ rest) pw = power_pass2 rest pw"
  by (induction es) (auto simp: other_device_cases split: option.splits)

text \<open>What the first loop finds, in terms of the directory.\<close>

lemma power_pass1_flags:
  "fst (snd (power_pass1 es (pw, fb, fa))) = (fb \<or> list_ex battery_usable es)
   \<and> snd (snd (power_pass1 es (pw, fb, fa))) = (fa \<or> ac_from fb es)
   \<and> on_ac (fst (power_pass1 es (pw, fb, fa))) = (if \<not> fa \<and> ac_from fb es then 1 else on_ac pw)"
proof (induction es arbitrary: pw fb fa)
  case Nil
  then show ?case by simp
next
  case (Cons e es)
  show ?case
  proof (cases "entry_type e")
    case None
    then have "power_pass1 (e # es) (pw, fb, fa) = power_pass1 es (pw, fb, fa)"
      by (auto simp: entry_type_def split: option.splits if_splits)
    moreover have "\<not> ac_online e" "\<not> battery_usable e"
      using None by (simp_all add: ac_online_def ac_dev_def battery_usable_def battery_dev_def)
    ultimately show ?thesis using Cons.IH [of pw fb fa] by simp
  next
    case (Some t)
    then have vis: "\<not> dot_entry e"
      and ty: "\<exists>c. type_file e = Some c \<and> read_type_buf c = Some t"
      by (auto simp: entry_type_def split: option.splits if_splits)
    then obtain c where c: "type_file e = Some c" "read_type_buf c = Some t" by blast
    have bd: "battery_dev e = (t = ''Battery'')" using Some by (simp add: battery_dev_def)
    have ao: "ac_online e = (ac_type t (d_name e) \<and> 0 < read_sys_int (online_file e))"
      using Some by (simp add: ac_online_def ac_dev_def ac_type_marker)
    show ?thesis
    proof (cases "t = ''Battery'' \<and> \<not> fb")
      case True
      let ?pw = "pw\<lparr>battery_percent := read_sys_int (capacity_file e)\<rparr>"
      have step: "power_pass1 (e # es) (pw, fb, fa)
          = power_pass1 es (?pw, battery_usable e, fa)"
        using True vis c bd by (simp add: Let_def battery_usable_def)
      show ?thesis unfolding step
        using Cons.IH [of ?pw "battery_usable e" fa] True bd by simp
    next
      case False
      then have bu: "battery_usable e \<longrightarrow> fb" and imp: "battery_dev e \<longrightarrow> fb"
        using bd by (auto simp: battery_usable_def)
      then have fbu: "(fb \<or> battery_usable e) = fb" by auto
      show ?thesis
      proof (cases "ac_online e \<and> \<not> fa")
        case True
        have step: "power_pass1 (e # es) (pw, fb, fa)
            = power_pass1 es (pw\<lparr>on_ac := 1\<rparr>, fb, True)"
          using False True vis c ao by (auto simp: Let_def)
        show ?thesis unfolding step
          using Cons.IH [of "pw\<lparr>on_ac := 1\<rparr>" fb True] True imp bu
          by (auto simp: fbu)
      next
        case F2: False
        have step: "power_pass1 (e # es) (pw, fb, fa) = power_pass1 es (pw, fb, fa)"
          using False F2 vis c ao by (auto simp: Let_def)
        show ?thesis unfolding step
          using Cons.IH [of pw fb fa] F2 imp bu by (auto simp: fbu)
      qed
    qed
  qed
qed

lemma list_ex_upt_Suc:
  "list_ex Q [0..<Suc n] = (Q 0 \<or> list_ex (\<lambda>k. Q (Suc k)) [0..<n])"
proof -
  have "[0..<Suc n] = 0 # [Suc 0..<Suc n]"
    by (rule upt_conv_Cons) simp
  then have u: "[0..<Suc n] = 0 # map Suc [0..<n]"
    by (simp only: map_Suc_upt)
  have m: "list_ex Q (map Suc ks) = list_ex (\<lambda>k. Q (Suc k)) ks" for ks
    by (induction ks) simp_all
  show ?thesis unfolding u by (simp add: m)
qed

lemma ac_from_index:
  "ac_from fb es =
     list_ex (\<lambda>k. ac_online (es ! k) \<and>
                  (battery_dev (es ! k) \<longrightarrow> fb \<or> list_ex battery_usable (take k es)))
       [0..<length es]"
proof (induction es arbitrary: fb)
  case Nil
  then show ?case by simp
next
  case (Cons e es)
  have l: "length (e # es) = Suc (length es)" by simp
  show ?case unfolding l list_ex_upt_Suc
    using Cons.IH [of "fb \<or> battery_usable e"] by (simp add: disj_ac)
qed

lemma ac_from_found: "ac_from False es = ac_found es"
  by (simp add: ac_from_index ac_found_def)

lemma power_pass1_result:
  obtains pw1 where
    "power_pass1 es (\<lparr>battery_percent = -1, on_ac = 0\<rparr>, False, False)
       = (pw1, battery_found es, ac_found es)"
    "on_ac pw1 = (if ac_found es then 1 else 0)"
proof -
  let ?r = "power_pass1 es (\<lparr>battery_percent = -1, on_ac = 0\<rparr>, False, False)"
  note f = power_pass1_flags [of es "\<lparr>battery_percent = -1, on_ac = 0\<rparr>" False False]
  have "?r = (fst ?r, battery_found es, ac_found es)"
    using f by (simp add: battery_found_def ac_from_found prod_eq_iff)
  moreover have "on_ac (fst ?r) = (if ac_found es then 1 else 0)"
    using f by (simp add: ac_from_found)
  ultimately show ?thesis using that by blast
qed

text \<open>What the second loop does, in terms of the directory.\<close>

lemma power_pass2_find:
  "power_pass2 es pw =
     (case find battery_dev es of
        None \<Rightarrow> Inr pw
      | Some b \<Rightarrow> (case status_file b of
                     None \<Rightarrow> Inl Fault
                   | Some sc \<Rightarrow> if read_type_buf sc = Some ''Charging''
                                then Inr (pw\<lparr>on_ac := 1\<rparr>) else Inr pw))"
  by (induction es) (auto simp: battery_dev_def entry_type_def split: option.splits)

text \<open>The sampler stops the process exactly when it reaches \<^verbatim>\<open>fclose(NULL)\<close>.\<close>

lemma parse_power_status_fault:
  "parse_power_status dir1 dir2 = Inl h \<longleftrightarrow> h = Fault \<and> fclose_null dir1 dir2"
proof (cases dir1)
  case None
  then show ?thesis by (simp add: parse_power_status_def fclose_null_def)
next
  case (Some es)
  obtain pw1 where p: "power_pass1 es (\<lparr>battery_percent = -1, on_ac = 0\<rparr>, False, False)
       = (pw1, battery_found es, ac_found es)"
    by (rule power_pass1_result)
  show ?thesis
    using Some
    by (auto simp: parse_power_status_def Let_def p fclose_null_def proxy_status_missing_def
          power_pass2_find split: option.splits)
qed

lemma parse_power_status_on_ac:
  assumes "parse_power_status (Some es) dir2 = Inr (rc, pw)"
  shows "(on_ac pw = 1 \<longleftrightarrow> ac_found es \<or> (battery_found es \<and> proxy_charging dir2))
    \<and> (on_ac pw = 0 \<or> on_ac pw = 1) \<and> rc = 0"
proof -
  obtain pw1 where p: "power_pass1 es (\<lparr>battery_percent = -1, on_ac = 0\<rparr>, False, False)
       = (pw1, battery_found es, ac_found es)"
    and o: "on_ac pw1 = (if ac_found es then 1 else 0)"
    by (rule power_pass1_result)
  show ?thesis
    using assms o
    by (auto simp: parse_power_status_def Let_def p proxy_charging_def
          power_pass2_find split: option.splits if_splits)
qed

text \<open>
  C9, as the program is written. The first loop counts an AC-type device as found only
  when its \<^verbatim>\<open>online\<close> attribute reads above 0. With an adapter of type \<^verbatim>\<open>Mains\<close> that is
  not online and a battery with capacity 42, an AC device is present, and still the
  second pass runs: \<open>on_ac\<close> is 1 when the status of the battery is \<^verbatim>\<open>Charging\<close> and 0
  when it is \<^verbatim>\<open>Discharging\<close>.
\<close>

theorem power_offline_adapter_counterexample:
  "ac_dev mains_off
   \<and> parse_power_status (Some [mains_off, bat0 ''Charging''])
         (Some [mains_off, bat0 ''Charging''])
       = Inr (0, \<lparr>battery_percent = 42, on_ac = 1\<rparr>)
   \<and> parse_power_status (Some [mains_off, bat0 ''Discharging''])
         (Some [mains_off, bat0 ''Discharging''])
       = Inr (0, \<lparr>battery_percent = 42, on_ac = 0\<rparr>)"
  by code_simp

text \<open>
  C9, amended. Let the power-supply directory hold one battery with capacity 42 and a
  readable \<^verbatim>\<open>status\<close>, and besides it only entries that are neither batteries nor
  AC-type devices. Then the sampler returns 0 with \<open>battery_percent = 42\<close>, and
  \<open>on_ac\<close> is 1 when the status line is exactly \<^verbatim>\<open>Charging\<close> and 0 for every other
  status, such as \<^verbatim>\<open>Discharging\<close>. For every directory, whenever the sampler returns,
  \<open>on_ac\<close> is 1 exactly when an AC-type device is online, or no AC-type device is online,
  a usable battery was found and the status of the first battery is exactly
  \<^verbatim>\<open>Charging\<close>: the Charging-as-AC proxy is applied exactly when a battery was found and
  no AC-type device was found online; an AC-type device that is present but not online
  does not prevent it. (A device of type Battery counts as an AC-type device only by
  its name, and only when a usable battery stands before it.)
\<close>

theorem power_one_battery_no_ac:
  assumes "list_all other_device pre" "list_all other_device post"
    and "battery_dev b" "capacity_file b = HasInt 42"
    and "status_file b = Some sc" "read_type_buf sc = Some st"
  shows "parse_power_status (Some (pre @ b # post)) (Some (pre @ b # post)) =
           Inr (0, \<lparr>battery_percent = 42, on_ac = (if st = ''Charging'' then 1 else 0)\<rparr>)
    \<and> (parse_power_status (Some es) dir2 = Inr (rc, pw) \<longrightarrow>
         (on_ac pw = 1 \<longleftrightarrow>
            ac_found es \<or> (\<not> ac_found es \<and> battery_found es \<and> proxy_charging dir2))
         \<and> (on_ac pw = 0 \<or> on_ac pw = 1))"
proof -
  let ?ini = "\<lparr>battery_percent = -1, on_ac = 0\<rparr>"
  let ?bat = "\<lparr>battery_percent = 42, on_ac = 0\<rparr>"
  from assms(3) obtain tc where b: "\<not> dot_entry b" "type_file b = Some tc"
      "read_type_buf tc = Some ''Battery''"
    by (auto simp: battery_dev_def entry_type_def split: option.splits if_splits)
  have "power_pass1 (pre @ b # post) (?ini, False, False)
          = power_pass1 (b # post) (?ini, False, False)"
    by (simp add: power_pass1_append power_pass1_skip [OF assms(1)])
  also have "\<dots> = power_pass1 post (?bat, True, False)"
    using b assms(4) by (simp add: Let_def)
  also have "\<dots> = (?bat, True, False)"
    by (rule power_pass1_skip [OF assms(2)])
  finally have p1: "power_pass1 (pre @ b # post) (?ini, False, False) = (?bat, True, False)" .
  have p2: "power_pass2 (pre @ b # post) ?bat
      = Inr (\<lparr>battery_percent = 42, on_ac = (if st = ''Charging'' then 1 else 0)\<rparr>)"
    using b assms(5,6) by (simp add: power_pass2_skip [OF assms(1)])
  have one: "parse_power_status (Some (pre @ b # post)) (Some (pre @ b # post)) =
           Inr (0, \<lparr>battery_percent = 42, on_ac = (if st = ''Charging'' then 1 else 0)\<rparr>)"
    by (simp add: parse_power_status_def Let_def p1 p2)
  have proxy: "parse_power_status (Some es) dir2 = Inr (rc, pw) \<longrightarrow>
         (on_ac pw = 1 \<longleftrightarrow>
            ac_found es \<or> (\<not> ac_found es \<and> battery_found es \<and> proxy_charging dir2))
         \<and> (on_ac pw = 0 \<or> on_ac pw = 1)"
    using parse_power_status_on_ac [of es dir2 rc pw] by blast
  from one proxy show ?thesis by (rule conjI)
qed

theorem power_one_battery_no_ac_witness:
  "parse_power_status (Some ([dir_entry ''.'', dir_entry ''..''] @ bat0 ''Charging'' # [usb_port]))
       (Some ([dir_entry ''.'', dir_entry ''..''] @ bat0 ''Charging'' # [usb_port]))
     = Inr (0, \<lparr>battery_percent = 42, on_ac = 1\<rparr>)
   \<and> parse_power_status
       (Some ([dir_entry ''.'', dir_entry ''..''] @ bat0 ''Discharging'' # [usb_port]))
       (Some ([dir_entry ''.'', dir_entry ''..''] @ bat0 ''Discharging'' # [usb_port]))
     = Inr (0, \<lparr>battery_percent = 42, on_ac = 0\<rparr>)
   \<and> battery_found [mains_off, bat0 ''Charging'']
   \<and> proxy_charging (Some [mains_off, bat0 ''Charging''])"
proof -
  have pre: "list_all other_device [dir_entry ''.'', dir_entry ''..'']"
    by code_simp
  have post: "list_all other_device [usb_port]"
    by code_simp
  have s1: "read_type_buf (''Charging'' @ [LF]) = Some ''Charging''"
    by code_simp
  have s2: "read_type_buf (''Discharging'' @ [LF]) = Some ''Discharging''"
    by code_simp
  have b: "\<And>s. battery_dev (bat0 s)"
    "\<And>s. capacity_file (bat0 s) = HasInt 42" "\<And>s. status_file (bat0 s) = Some (s @ [LF])"
    by (code_simp, simp_all add: bat0_def)
  have run: "parse_power_status (Some [mains_off, bat0 ''Charging''])
         (Some [mains_off, bat0 ''Charging''])
       = Inr (0, \<lparr>battery_percent = 42, on_ac = 1\<rparr>)"
    by code_simp
  have noac: "\<not> ac_found [mains_off, bat0 ''Charging'']"
    by code_simp
  note t1 = power_one_battery_no_ac [OF pre post b(1) b(2) b(3) s1]
  note t2 = power_one_battery_no_ac [OF pre post b(1) b(2) b(3) s2]
  from t1 [of "[mains_off, bat0 ''Charging'']" "Some [mains_off, bat0 ''Charging'']" 0
      "\<lparr>battery_percent = 42, on_ac = 1\<rparr>"] run noac
  have px: "battery_found [mains_off, bat0 ''Charging'']
      \<and> proxy_charging (Some [mains_off, bat0 ''Charging''])"
    by simp
  from t1 [THEN conjunct1] t2 [THEN conjunct1] px
  show ?thesis by simp
qed

section \<open>Draining the tailed file\<close>

lemma fgets_loop_line:
  "\<not> f_eof f \<Longrightarrow> f_content f = pre @ l @ LF # rest \<Longrightarrow> f_pos f = length pre \<Longrightarrow>
   LF \<notin> set l \<Longrightarrow> length l < k \<Longrightarrow>
   fgets_loop k acc f = (acc @ l @ [LF], f\<lparr>f_pos := length pre + length l + 1\<rparr>)"
proof (induction l arbitrary: k acc f pre)
  case Nil
  then obtain k' where k: "k = Suc k'" by (cases k) auto
  have "fgetc f = (Some LF, f\<lparr>f_pos := f_pos f + 1\<rparr>)"
    using Nil by (simp add: fgetc_def)
  then show ?case using Nil k by simp
next
  case (Cons c l)
  then obtain k' where k: "k = Suc k'" and lk: "length l < k'" by (cases k) auto
  let ?f = "f\<lparr>f_pos := f_pos f + 1\<rparr>"
  have g: "fgetc f = (Some c, ?f)"
    using Cons.prems by (simp add: fgetc_def nth_append)
  have c: "c \<noteq> LF" "LF \<notin> set l" using Cons.prems by auto
  have "fgets_loop k' (acc @ [c]) ?f
          = ((acc @ [c]) @ l @ [LF], ?f\<lparr>f_pos := length (pre @ [c]) + length l + 1\<rparr>)"
    by (rule Cons.IH [OF _ _ _ c(2) lk]) (use Cons.prems in simp_all)
  then show ?case using g c k by simp
qed

lemma fgets_line:
  assumes "\<not> f_eof f" "f_content f = pre @ l @ LF # rest" "f_pos f = length pre"
    "LF \<notin> set l" "length l \<le> 1022"
  shows "fgets 1024 f = (Some (l @ [LF]), f\<lparr>f_pos := length pre + length l + 1\<rparr>)"
proof -
  have "length l < 1023" using assms(5) by simp
  from fgets_loop_line [OF assms(1-4) this, of "[]"]
  show ?thesis by (simp add: fgets_def)
qed

lemma fgets_loop_at_end:
  "f_pos f \<ge> length (f_content f) \<Longrightarrow> fgets_loop (Suc k) acc f = (acc, f\<lparr>f_eof := True\<rparr>)"
  by (simp add: fgetc_def)

lemma fgets_at_end:
  assumes "f_pos f \<ge> length (f_content f)"
  shows "fgets 1024 f = (None, f\<lparr>f_eof := True\<rparr>)"
proof -
  have e: "(1024::nat) - 1 = Suc 1022" by simp
  show ?thesis unfolding fgets_def e fgets_loop_at_end [OF assms] by simp
qed

lemma cut_fits_line:
  assumes "LF \<notin> set l"
  shows "cut_at [CR, LF] (l @ [LF]) = line_shown l"
  using assms by (induction l) (auto simp: cut_at_def line_shown_def)

lemma line_shown_plain:
  assumes "plain_line l"
  shows "line_shown l = l" and "line_shown (l @ [CR]) = l"
  using assms by (induction l) (auto simp: line_shown_def plain_line_def)

lemma map_line_shown_plain: "list_all plain_line ls \<Longrightarrow> map line_shown ls = ls"
  by (induction ls) (simp_all add: line_shown_plain)

lemma read_debug_loop_lines:
  "\<not> f_eof f \<Longrightarrow> f_content f = pre @ lines_bytes ls \<Longrightarrow> f_pos f = length pre \<Longrightarrow>
   list_all fits_line ls \<Longrightarrow>
   read_debug_loop f lg u =
     (if ls = [] then u else 1, f\<lparr>f_pos := length (f_content f), f_eof := True\<rparr>,
      fold debug_log_append (map line_shown ls) lg)"
proof (induction ls arbitrary: f lg u pre)
  case Nil
  then have "fgets 1024 f = (None, f\<lparr>f_eof := True\<rparr>)"
    by (intro fgets_at_end) (simp add: lines_bytes_def)
  then show ?case using Nil
    by (subst read_debug_loop.simps) (simp add: lines_bytes_def)
next
  case (Cons l ls)
  have tl: "fits_line l" "list_all fits_line ls" using Cons.prems(4) by simp_all
  have fl: "LF \<notin> set l" using tl(1) by (simp add: fits_line_def)
  let ?f = "f\<lparr>f_pos := length pre + length l + 1\<rparr>"
  have cont: "f_content f = pre @ l @ LF # lines_bytes ls"
    using Cons.prems(2) by (simp add: lines_bytes_def)
  have g: "fgets 1024 f = (Some (l @ [LF]), ?f)"
    using tl(1) by (intro fgets_line [OF Cons.prems(1) cont Cons.prems(3)])
      (simp_all add: fits_line_def)
  have ih: "read_debug_loop ?f (debug_log_append (line_shown l) lg) 1 =
      (if ls = [] then 1 else 1, ?f\<lparr>f_pos := length (f_content ?f), f_eof := True\<rparr>,
       fold debug_log_append (map line_shown ls) (debug_log_append (line_shown l) lg))"
    by (rule Cons.IH [where pre = "pre @ l @ [LF]", OF _ _ _ tl(2)])
       (use Cons.prems cont in simp_all)
  have "read_debug_loop f lg u = read_debug_loop ?f (debug_log_append (line_shown l) lg) 1"
    by (subst read_debug_loop.simps) (simp add: g cut_fits_line [OF fl])
  also note ih
  finally show ?case by simp
qed

lemma drain_lines:
  assumes "at_end f" "list_all fits_line ls"
  shows "read_debug_file (Some (file_append (lines_bytes ls) f)) lg =
     (if ls = [] then 0 else 1,
      Some \<lparr>f_content = f_content f @ lines_bytes ls,
            f_pos = length (f_content f @ lines_bytes ls), f_eof = False\<rparr>,
      fold debug_log_append (map line_shown ls) lg)"
proof -
  let ?g = "file_append (lines_bytes ls) f"
  have "read_debug_loop ?g lg 0 =
     (if ls = [] then 0 else 1, ?g\<lparr>f_pos := length (f_content ?g), f_eof := True\<rparr>,
      fold debug_log_append (map line_shown ls) lg)"
    by (rule read_debug_loop_lines [where pre = "f_content f"])
       (use assms in \<open>simp_all add: at_end_def file_append_def\<close>)
  then show ?thesis
    by (simp add: read_debug_file_def clearerr_def file_append_def)
qed

lemma at_end_after: "at_end \<lparr>f_content = c, f_pos = length c, f_eof = False\<rparr>"
  by (simp add: at_end_def)

lemma tail_ticks:
  "at_end f \<Longrightarrow> list_all (list_all fits_line) bs \<Longrightarrow>
   fold tail_tick (map lines_bytes bs) (Some f, lg) =
     (Some \<lparr>f_content = f_content f @ concat (map lines_bytes bs),
            f_pos = length (f_content f @ concat (map lines_bytes bs)), f_eof = False\<rparr>,
      fold debug_log_append (map line_shown (concat bs)) lg)"
proof (induction bs arbitrary: f lg)
  case Nil
  then show ?case by (simp add: at_end_def)
next
  case (Cons b bs)
  have b: "list_all fits_line b" "list_all (list_all fits_line) bs"
    using Cons.prems(2) by simp_all
  let ?f = "\<lparr>f_content = f_content f @ lines_bytes b,
            f_pos = length (f_content f @ lines_bytes b), f_eof = False\<rparr>"
  have step: "tail_tick (lines_bytes b) (Some f, lg) = (Some ?f, fold debug_log_append (map line_shown b) lg)"
    by (simp add: tail_tick_def drain_lines [OF Cons.prems(1) b(1)])
  from Cons.IH [OF at_end_after b(2), of "f_content f @ lines_bytes b"
      "fold debug_log_append (map line_shown b) lg"]
  show ?case by (simp add: step)
qed

text \<open>
  Why \<^verbatim>\<open>clearerr\<close> is needed: while the end-of-file indicator is set, a drain reads
  nothing, whatever the file holds by then.
\<close>

lemma eof_indicator_blocks_drain:
  assumes "f_eof f"
  shows "read_debug_loop f lg u = (u, f, lg)"
proof -
  have e: "(1024::nat) - 1 = Suc 1022" by simp
  have k: "fgets_loop (Suc k) [] f = ([], f)" for k
    using assms by (simp add: fgetc_def)
  have "fgets 1024 f = (None, f)"
    unfolding fgets_def e k by simp
  then show ?thesis by (subst read_debug_loop.simps) simp
qed

lemma fgets_loop_length: "length (fst (fgets_loop k acc f)) \<le> length acc + k"
proof (induction k arbitrary: acc f)
  case 0
  then show ?case by simp
next
  case (Suc k)
  show ?case
  proof (cases "fgetc f")
    case (Pair r f')
    show ?thesis
    proof (cases r)
      case None
      then show ?thesis using Pair by simp
    next
      case (Some c)
      then show ?thesis using Pair Suc.IH [of "acc @ [c]" f'] by simp
    qed
  qed
qed

lemma fgets_length: "fgets n f = (Some line, f') \<Longrightarrow> length line \<le> n - 1"
  using fgets_loop_length [of "n - 1" "[]" f]
  by (auto simp: fgets_def split: prod.splits if_splits)

lemma cut_at_length: "length (cut_at r s) \<le> length s"
  by (simp add: cut_at_def length_takeWhile_le)

lemma memmove_down_subset: "set (memmove_down n a) \<subseteq> set a"
  using set_take_subset [of n "drop 1 a"] set_drop_subset [of 1 a] set_drop_subset [of n a]
  by (auto simp: memmove_down_def)

lemma debug_lines_append_subset:
  "set (debug_lines (debug_log_append l lg)) \<subseteq> insert l (set (debug_lines lg))"
proof (cases "debug_line_count lg \<ge> MAX_DEBUG_LINES")
  case True
  let ?m = "memmove_down (MAX_DEBUG_LINES - 1) (debug_lines lg)"
  have e: "debug_lines (debug_log_append l lg) = ?m[debug_line_count lg - 1 := l]"
    using True by (simp add: debug_log_append_def Let_def)
  have "set (?m[debug_line_count lg - 1 := l]) \<subseteq> insert l (set ?m)"
    by (rule set_update_subset_insert)
  also have "\<dots> \<subseteq> insert l (set (debug_lines lg))"
    by (rule insert_mono) (rule memmove_down_subset)
  finally show ?thesis unfolding e .
next
  case False
  then have "debug_lines (debug_log_append l lg) = (debug_lines lg)[debug_line_count lg := l]"
    by (simp add: debug_log_append_def Let_def)
  then show ?thesis by (simp add: set_update_subset_insert)
qed

lemma read_debug_loop_short:
  "x \<in> set (debug_lines (snd (snd (read_debug_loop f lg u)))) \<Longrightarrow>
   x \<in> set (debug_lines lg) \<or> length x \<le> 1023"
proof (induction f lg u rule: read_debug_loop.induct)
  case (1 f lg u)
  show ?case
  proof (cases "fgets 1024 f")
    case (Pair r f')
    show ?thesis
    proof (cases r)
      case None
      then show ?thesis using Pair "1.prems"
        by (subst (asm) read_debug_loop.simps) simp
    next
      case (Some line)
      let ?c = "cut_at [CR, LF] line"
      have "x \<in> set (debug_lines (snd (snd (read_debug_loop f' (debug_log_append ?c lg) 1))))"
        using Pair Some "1.prems" by (subst (asm) read_debug_loop.simps) simp
      from "1.IH" [OF Pair [symmetric] Some this]
      have "x \<in> set (debug_lines (debug_log_append ?c lg)) \<or> length x \<le> 1023" .
      moreover have "length ?c \<le> 1023"
        using fgets_length [of 1024 f line f'] cut_at_length [of "[CR, LF]" line] Pair Some
        by simp
      ultimately show ?thesis
        using debug_lines_append_subset [of ?c lg] by auto
    qed
  qed
qed

text \<open>
  C8, as the program is written. \<^verbatim>\<open>read_debug_file\<close> reads with
  \<^verbatim>\<open>fgets(line, 1024, dbg_fp)\<close>, so no string it hands to the log buffer is longer
  than 1023 bytes. A line of 1024 bytes appended to the file (followed by its newline)
  is read as two pieces and does not appear in the log buffer. The string handed to
  the log buffer also ends at the first CR (\<^verbatim>\<open>strcspn(line, "\r\n")\<close>) and at the first
  NUL byte (the end of a C string): of the appended line \<^verbatim>\<open>ab\rcd\<close>, and of the
  appended line made of \<^verbatim>\<open>ab\<close>, a NUL byte and \<^verbatim>\<open>cd\<close>, only \<^verbatim>\<open>ab\<close> enters
  the log buffer.
\<close>

theorem tail_long_line_counterexample:
  "long_line \<notin> set (log_contents
      (snd (tail_tick (long_line @ [LF]) (init_debug_file (Some []), debug_log_init))))
   \<and> log_contents (snd (tail_tick (''ab'' @ CR # ''cd'' @ [LF])
        (init_debug_file (Some []), debug_log_init))) = [''ab'']
   \<and> log_contents (snd (tail_tick (''ab'' @ NUL # ''cd'' @ [LF])
        (init_debug_file (Some []), debug_log_init))) = [''ab'']"
proof (intro conjI)
  show "long_line \<notin> set (log_contents
      (snd (tail_tick (long_line @ [LF]) (init_debug_file (Some []), debug_log_init))))"
  proof
    let ?g = "file_append (long_line @ [LF]) \<lparr>f_content = [], f_pos = 0, f_eof = False\<rparr>"
    assume "long_line \<in> set (log_contents
        (snd (tail_tick (long_line @ [LF]) (init_debug_file (Some []), debug_log_init))))"
    then have "long_line \<in> set (log_contents (snd (snd (read_debug_loop ?g debug_log_init 0))))"
      by (simp add: tail_tick_def init_debug_file_def fopen_r_def read_debug_file_def
            case_prod_unfold)
    then have "long_line \<in> set (debug_lines (snd (snd (read_debug_loop ?g debug_log_init 0))))"
      using set_take_subset by (fastforce simp: log_contents_def)
    from read_debug_loop_short [OF this]
    show False by (simp add: debug_log_init_def long_line_def)
  qed
  show "log_contents (snd (tail_tick (''ab'' @ CR # ''cd'' @ [LF])
        (init_debug_file (Some []), debug_log_init))) = [''ab'']"
    by code_simp
  show "log_contents (snd (tail_tick (''ab'' @ NUL # ''cd'' @ [LF])
        (init_debug_file (Some []), debug_log_init))) = [''ab'']"
    by code_simp
qed

text \<open>
  C8, amended. Let the stream have read all of its file, with the end-of-file
  indicator clear; this is its state after \<^verbatim>\<open>init_debug_file\<close> and after every drain.
  When another process appends complete lines (each ended by a newline and at most
  1022 bytes long before it), the next drain reads all of them, hands them to the log
  buffer in order, each without its newline and cut at its first CR or NUL byte if it
  has one, reports an update exactly when there was a line, and leaves the stream at
  the end of the file with the indicator clear again. So over any number of ticks,
  with or without new lines between them, every appended line enters the log buffer,
  in order; the buffer then holds the last \<open>MAX_DEBUG_LINES\<close> of them. A line
  without CR and NUL bytes enters unchanged, and such a line ended by CR LF enters
  without the CR.
\<close>

theorem tail_drain_lines:
  assumes "at_end f" and "list_all fits_line ls" and "list_all (list_all fits_line) bs"
  shows "init_debug_file (Some c) = Some \<lparr>f_content = c, f_pos = length c, f_eof = False\<rparr>
    \<and> at_end \<lparr>f_content = c, f_pos = length c, f_eof = False\<rparr>
    \<and> read_debug_file (Some (file_append (lines_bytes ls) f)) lg =
        (if ls = [] then 0 else 1,
         Some \<lparr>f_content = f_content f @ lines_bytes ls,
               f_pos = length (f_content f @ lines_bytes ls), f_eof = False\<rparr>,
         fold debug_log_append (map line_shown ls) lg)
    \<and> fold tail_tick (map lines_bytes bs) (Some f, lg) =
        (Some \<lparr>f_content = f_content f @ concat (map lines_bytes bs),
               f_pos = length (f_content f @ concat (map lines_bytes bs)), f_eof = False\<rparr>,
         fold debug_log_append (map line_shown (concat bs)) lg)
    \<and> log_contents (snd (fold tail_tick (map lines_bytes bs) (Some f, debug_log_init)))
        = lastn MAX_DEBUG_LINES (map line_shown (concat bs))
    \<and> (list_all plain_line (concat bs) \<longrightarrow>
        log_contents (snd (fold tail_tick (map lines_bytes bs) (Some f, debug_log_init)))
          = lastn MAX_DEBUG_LINES (concat bs))
    \<and> (plain_line l \<longrightarrow> line_shown l = l \<and> line_shown (l @ [CR]) = l)"
proof -
  have i: "init_debug_file (Some c) = Some \<lparr>f_content = c, f_pos = length c, f_eof = False\<rparr>"
    by (simp add: init_debug_file_def fopen_r_def)
  have l: "log_contents (fold debug_log_append (map line_shown (concat bs)) debug_log_init)
      = lastn MAX_DEBUG_LINES (map line_shown (concat bs))"
    using log_contents_fold [OF log_ok_init, of "[]" "map line_shown (concat bs)"]
    by (simp add: log_contents_init lastn_def)
  have t: "fold tail_tick (map lines_bytes bs) (Some f, lg') =
        (Some \<lparr>f_content = f_content f @ concat (map lines_bytes bs),
               f_pos = length (f_content f @ concat (map lines_bytes bs)), f_eof = False\<rparr>,
         fold debug_log_append (map line_shown (concat bs)) lg')" for lg'
    by (rule tail_ticks [OF assms(1,3)])
  have l': "log_contents (snd (fold tail_tick (map lines_bytes bs) (Some f, debug_log_init)))
        = lastn MAX_DEBUG_LINES (map line_shown (concat bs))"
    unfolding t snd_conv by (rule l)
  have p: "list_all plain_line (concat bs) \<longrightarrow>
        log_contents (snd (fold tail_tick (map lines_bytes bs) (Some f, debug_log_init)))
          = lastn MAX_DEBUG_LINES (concat bs)"
    unfolding l' by (simp add: map_line_shown_plain)
  have s: "plain_line l \<longrightarrow> line_shown l = l \<and> line_shown (l @ [CR]) = l"
    by (simp add: line_shown_plain)
  from i at_end_after drain_lines [OF assms(1,2)] t l' p s
  show ?thesis by blast
qed

theorem tail_drain_lines_witness:
  "log_contents (snd (fold tail_tick (map lines_bytes [[''a'', ''b'' @ [CR]], [], [''c'']])
      (init_debug_file (Some old_file), debug_log_init))) = [''a'', ''b'', ''c'']
   \<and> fst (fold tail_tick (map lines_bytes [[''a'', ''b'' @ [CR]], [], [''c'']])
      (init_debug_file (Some old_file), debug_log_init))
     = Some \<lparr>f_content = old_file @ lines_bytes [''a'', ''b'' @ [CR], ''c''],
             f_pos = length (old_file @ lines_bytes [''a'', ''b'' @ [CR], ''c'']), f_eof = False\<rparr>
   \<and> plain_line ''b'' \<and> line_shown (''b'' @ [CR]) = ''b''
   \<and> list_all plain_line (concat [[''a''], [], [''c'']])
   \<and> log_contents (snd (fold tail_tick (map lines_bytes [[''a''], [], [''c'']])
      (init_debug_file (Some old_file), debug_log_init))) = [''a'', ''c'']"
proof -
  let ?f = "\<lparr>f_content = old_file, f_pos = length old_file, f_eof = False\<rparr>"
  let ?bs = "[[''a'', ''b'' @ [CR]], [], [''c'']]"
  let ?cs = "[[''a''], [], [''c'']]"
  have a: "at_end ?f" by (rule at_end_after)
  have t: "list_all fits_line []" by simp
  have b: "list_all (list_all fits_line) ?bs"
    by (simp add: fits_line_def LF_def CR_def)
  have b2: "list_all (list_all fits_line) ?cs"
    by (simp add: fits_line_def LF_def)
  have pb: "plain_line ''b''" by (simp add: plain_line_def CR_def NUL_def)
  have pc: "list_all plain_line (concat ?cs)" by (simp add: plain_line_def CR_def NUL_def)
  note th = tail_drain_lines [OF a t b, where c = old_file and lg = debug_log_init
      and l = "''b''"]
  note th2 = tail_drain_lines [OF a t b2, where c = old_file and lg = debug_log_init
      and l = "''b''"]
  from th have i: "init_debug_file (Some old_file) = Some ?f" by (rule conjunct1)
  from th have k: "fold tail_tick (map lines_bytes ?bs) (Some ?f, debug_log_init) =
        (Some \<lparr>f_content = f_content ?f @ concat (map lines_bytes ?bs),
               f_pos = length (f_content ?f @ concat (map lines_bytes ?bs)),
               f_eof = False\<rparr>,
         fold debug_log_append (map line_shown (concat ?bs)) debug_log_init)"
    by blast
  from th have c: "log_contents (snd (fold tail_tick (map lines_bytes ?bs)
        (Some ?f, debug_log_init))) = lastn MAX_DEBUG_LINES (map line_shown (concat ?bs))"
    by blast
  from th pb have sb: "line_shown (''b'' @ [CR]) = ''b''" and sb': "line_shown ''b'' = ''b''"
    by blast+
  from th2 pc have c2: "log_contents (snd (fold tail_tick (map lines_bytes ?cs)
        (Some ?f, debug_log_init))) = lastn MAX_DEBUG_LINES (concat ?cs)"
    by blast
  have sa: "line_shown ''a'' = ''a''" "line_shown ''c'' = ''c''"
    by (simp_all add: line_shown_def CR_def NUL_def)
  have c': "lastn MAX_DEBUG_LINES (map line_shown (concat ?bs)) = [''a'', ''b'', ''c'']"
    using sb sa by (simp add: lastn_def MAX_DEBUG_LINES_def)
  have c2': "lastn MAX_DEBUG_LINES (concat ?cs) = [''a'', ''c'']"
    by (simp add: lastn_def MAX_DEBUG_LINES_def)
  have k': "f_content ?f @ concat (map lines_bytes ?bs)
      = old_file @ lines_bytes [''a'', ''b'' @ [CR], ''c'']"
    by (simp add: lines_bytes_def)
  have first: "log_contents (snd (fold tail_tick (map lines_bytes ?bs)
      (init_debug_file (Some old_file), debug_log_init))) = [''a'', ''b'', ''c'']"
    unfolding i c c' ..
  have second: "fst (fold tail_tick (map lines_bytes ?bs)
      (init_debug_file (Some old_file), debug_log_init))
     = Some \<lparr>f_content = old_file @ lines_bytes [''a'', ''b'' @ [CR], ''c''],
             f_pos = length (old_file @ lines_bytes [''a'', ''b'' @ [CR], ''c'']), f_eof = False\<rparr>"
    unfolding i k fst_conv k' ..
  have third: "log_contents (snd (fold tail_tick (map lines_bytes ?cs)
      (init_debug_file (Some old_file), debug_log_init))) = [''a'', ''c'']"
    unfolding i c2 c2' ..
  from first second pb sb pc third show ?thesis by blast
qed

section \<open>The poll loop and per-tick failures\<close>

lemma get_cpu_usage_runs: "\<exists>r. get_cpu_usage (CpuRead c) p = Inr r"
  by (simp add: get_cpu_usage_unfold)

lemma get_mem_usage_runs: "\<exists>r. get_mem_usage (MemTable rows) = Inr r"
  by (simp add: get_mem_usage_def Let_def)

lemma main_tick_cpu_fail: "cpu_in i = CpuFopenFail \<Longrightarrow> main_tick i s = Inl (Exit 1)"
  by (simp add: main_tick_def get_cpu_usage_def get_cpu_stats_def Let_def)

lemma main_tick_mem_fail:
  assumes "mem_in i = MemFopenFail"
  shows "main_tick i s = Inl (Exit 1)"
proof (cases "cpu_in i")
  case CpuFopenFail
  then show ?thesis by (rule main_tick_cpu_fail)
next
  case (CpuRead c)
  obtain r where "get_cpu_usage (CpuRead c)
      (prev (case sigwinch i of None \<Rightarrow> s | Some ws \<Rightarrow> handle_winch ws s)) = Inr r"
    using get_cpu_usage_runs by blast
  then show ?thesis using assms CpuRead
    by (simp add: main_tick_def Let_def get_mem_usage_def split: prod.splits)
qed

text \<open>With both sources open, the iteration ends as the power sampler does.\<close>

lemma main_tick_sources_open:
  assumes "tick_sources_open i"
  shows "(fclose_null (power_dir1 i) (power_dir2 i) \<longrightarrow> main_tick i s = Inl Fault)
    \<and> (\<not> fclose_null (power_dir1 i) (power_dir2 i) \<longrightarrow> (\<exists>s'. main_tick i s = Inr s'))"
proof -
  let ?s = "case sigwinch i of None \<Rightarrow> s | Some ws \<Rightarrow> handle_winch ws s"
  obtain c rows where src: "cpu_in i = CpuRead c" "mem_in i = MemTable rows"
    using assms by (cases "cpu_in i"; cases "mem_in i") (auto simp: tick_sources_open_def)
  obtain r1 where r1: "get_cpu_usage (CpuRead c) (prev ?s) = Inr r1"
    using get_cpu_usage_runs by blast
  obtain r2 where r2: "get_mem_usage (MemTable rows) = Inr r2"
    using get_mem_usage_runs by blast
  show ?thesis
  proof (cases "parse_power_status (power_dir1 i) (power_dir2 i)")
    case (Inl h)
    then have "h = Fault" "fclose_null (power_dir1 i) (power_dir2 i)"
      using parse_power_status_fault by blast+
    then show ?thesis using Inl
      by (simp add: main_tick_def Let_def src r1 r2 split: prod.splits)
  next
    case (Inr r3)
    then have "\<not> fclose_null (power_dir1 i) (power_dir2 i)"
      using parse_power_status_fault [of "power_dir1 i" "power_dir2 i" Fault] by simp
    then show ?thesis using Inr
      by (simp add: main_tick_def Let_def src r1 r2 split: prod.splits)
  qed
qed

text \<open>
  C1, as the program is written. \<^verbatim>\<open>get_cpu_usage\<close> calls \<^verbatim>\<open>get_cpu_stats\<close> in every
  iteration, and \<^verbatim>\<open>get_cpu_stats\<close> calls \<^verbatim>\<open>exit(1)\<close> when \<^verbatim>\<open>/proc/stat\<close> cannot be
  opened: after a successful start, an iteration in which this \<^verbatim>\<open>fopen\<close> fails ends
  the process.
\<close>

theorem tick_cpu_fopen_counterexample:
  "\<not> isl (main_startup boot_input)
   \<and> main_tick cpu_fail_tick (projr (main_startup boot_input)) = Inl (Exit 1)"
proof -
  have "\<not> isl (main_startup boot_input)"
    by (simp add: main_startup_def boot_input_def get_cpu_stats_def parse_power_status_def Let_def)
  moreover have "main_tick cpu_fail_tick (projr (main_startup boot_input)) = Inl (Exit 1)"
    by (rule main_tick_cpu_fail) (simp add: cpu_fail_tick_def)
  ultimately show ?thesis by (rule conjI)
qed

text \<open>
  C1, amended. In every state, an iteration calls \<^verbatim>\<open>exit\<close> exactly when \<^verbatim>\<open>/proc/stat\<close>
  or \<^verbatim>\<open>/proc/meminfo\<close> cannot be opened, and then with status 1. An iteration in which
  both can be opened, and in which the power sampler does not reach \<^verbatim>\<open>fclose(NULL)\<close>
  (it does so only when its second pass runs and stops at a battery whose \<^verbatim>\<open>status\<close>
  cannot be opened), ends in a new state, whatever the loadavg read, the rest of the
  power enumeration and the log drain give; so the loop keeps running over any sequence
  of such iterations.
\<close>

theorem tick_exits_only_without_sources:
  "((\<exists>n. main_tick i s = Inl (Exit n)) \<longleftrightarrow> cpu_in i = CpuFopenFail \<or> mem_in i = MemFopenFail)
   \<and> (cpu_in i = CpuFopenFail \<or> mem_in i = MemFopenFail \<longrightarrow> main_tick i s = Inl (Exit 1))
   \<and> (tick_sources_open i \<and> \<not> fclose_null (power_dir1 i) (power_dir2 i)
        \<longrightarrow> (\<exists>s'. main_tick i s = Inr s'))
   \<and> (list_all (\<lambda>j. tick_sources_open j \<and> \<not> fclose_null (power_dir1 j) (power_dir2 j)) js
        \<longrightarrow> (\<exists>s'. main_loop js s = Inr s'))"
proof -
  have fail: "cpu_in i = CpuFopenFail \<or> mem_in i = MemFopenFail \<Longrightarrow> main_tick i s = Inl (Exit 1)"
    using main_tick_cpu_fail main_tick_mem_fail by blast
  have run: "tick_sources_open j \<and> \<not> fclose_null (power_dir1 j) (power_dir2 j)
        \<Longrightarrow> \<exists>s'. main_tick j t = Inr s'" for j t
    using main_tick_sources_open [of j t] by blast
  have noexit: "main_tick i s \<noteq> Inl (Exit n)" if "tick_sources_open i" for n
    using main_tick_sources_open [OF that, of s]
    by (cases "fclose_null (power_dir1 i) (power_dir2 i)") auto
  have exit: "(\<exists>n. main_tick i s = Inl (Exit n))
      \<longleftrightarrow> cpu_in i = CpuFopenFail \<or> mem_in i = MemFopenFail"
    using fail noexit by (auto simp: tick_sources_open_def)
  have loop: "list_all (\<lambda>j. tick_sources_open j \<and> \<not> fclose_null (power_dir1 j) (power_dir2 j)) js
         \<Longrightarrow> \<exists>s'. main_loop js t = Inr s'" for js t
  proof (induction js arbitrary: t)
    case Nil
    then show ?case by simp
  next
    case (Cons j js)
    then obtain s1 where "main_tick j t = Inr s1"
      using run [of j t] by auto
    then show ?case using Cons by simp
  qed
  from exit fail run [of i s] loop [of js s] show ?thesis by blast
qed

theorem tick_exits_only_without_sources_witness:
  "\<not> isl (main_startup boot_tail_input)
   \<and> tick_sources_open soft_fail_tick
   \<and> \<not> fclose_null (power_dir1 soft_fail_tick) (power_dir2 soft_fail_tick)
   \<and> fst (parse_loadavg (load_in soft_fail_tick) loads_old) = -1
   \<and> (\<exists>s'. main_tick soft_fail_tick (projr (main_startup boot_tail_input)) = Inr s')
   \<and> (\<exists>s'. main_loop [soft_fail_tick, soft_fail_tick] (projr (main_startup boot_tail_input))
          = Inr s')
   \<and> main_tick cpu_fail_tick (projr (main_startup boot_tail_input)) = Inl (Exit 1)"
proof -
  have b: "\<not> isl (main_startup boot_tail_input)"
    by code_simp
  have o: "tick_sources_open soft_fail_tick"
    by (simp add: tick_sources_open_def soft_fail_tick_def)
  have h: "\<not> fclose_null (power_dir1 soft_fail_tick) (power_dir2 soft_fail_tick)"
    by code_simp
  have l: "fst (parse_loadavg (load_in soft_fail_tick) loads_old) = -1"
    by (simp add: parse_loadavg_def soft_fail_tick_def)
  have c: "cpu_in cpu_fail_tick = CpuFopenFail"
    by (simp add: cpu_fail_tick_def)
  from tick_exits_only_without_sources
    [of soft_fail_tick "projr (main_startup boot_tail_input)" "[soft_fail_tick, soft_fail_tick]"]
    o h
  have t: "\<exists>s'. main_tick soft_fail_tick (projr (main_startup boot_tail_input)) = Inr s'"
    and m: "\<exists>s'. main_loop [soft_fail_tick, soft_fail_tick]
          (projr (main_startup boot_tail_input)) = Inr s'"
    by simp_all
  from tick_exits_only_without_sources
    [of cpu_fail_tick "projr (main_startup boot_tail_input)" "[]"] c
  have e: "main_tick cpu_fail_tick (projr (main_startup boot_tail_input)) = Inl (Exit 1)"
    by blast
  from b o h l t m e show ?thesis by blast
qed

end
